theory Spec2Isabelle
  imports Main
begin

section \<open>Data model\<close>

text \<open>
  The solver of \<^verbatim>\<open>sudoko.py\<close> works on a Python list of lists of integers, the
  grid, where 0 stands for an empty cell, and on three lists of Python sets of integers
  (\<^verbatim>\<open>rows_possible\<close>, \<^verbatim>\<open>cols_possible\<close>, \<^verbatim>\<open>boxes_possible\<close>). Python integers are unbounded,
  so cells are \<^typ>\<open>int\<close>; a Python set of integers is an \<^typ>\<open>int set\<close>.

  Python raises \<^verbatim>\<open>IndexError\<close> on a subscript that is out of range and \<^verbatim>\<open>KeyError\<close> when
  \<^verbatim>\<open>set.remove\<close> is given an element that is absent. Both are values of the model: every
  function returns a sum whose left injection is the exception.
\<close>

datatype py_error = IndexError | KeyError

type_synonym sudoku_grid = "int list list"

text \<open>
  The variables that the nested function \<^verbatim>\<open>backtrack\<close> closes over and mutates in place.
\<close>

record state =
  grid :: "int list list"
  rows_possible :: "int set list"
  cols_possible :: "int set list"
  boxes_possible :: "int set list"

section \<open>The candidate tracker: \<^verbatim>\<open>get_possible_numbers\<close>\<close>

text \<open>\<^verbatim>\<open>all_numbers = set(range(1, 10))\<close>\<close>

definition all_numbers :: "int set" where
  "all_numbers = set [1..9]"

text \<open>\<^verbatim>\<open>product(range(n), repeat=2)\<close>: the pairs in row-major order.\<close>

definition product_range :: "nat \<Rightarrow> (nat \<times> nat) list" where
  "product_range n = List.product [0..<n] [0..<n]"

text \<open>
  Every subscript \<^verbatim>\<open>grid[i][j]\<close> that the three functions evaluate has \<open>i\<close> and \<open>j\<close> in
  \<^verbatim>\<open>range(9)\<close>. \<open>subscriptable g\<close> says that none of them is out of range.
\<close>

definition subscriptable :: "sudoku_grid \<Rightarrow> bool" where
  "subscriptable g \<longleftrightarrow>
     9 \<le> length g \<and> list_all (\<lambda>i. 9 \<le> length (g ! i)) [0..<9]"

text \<open>The values \<^verbatim>\<open>grid[i][j] for i in range(9)\<close> of column \<open>j\<close>.\<close>

definition column_values :: "sudoku_grid \<Rightarrow> nat \<Rightarrow> int list" where
  "column_values g j = map (\<lambda>i. g ! i ! j) [0..<9]"

text \<open>
  The values \<^verbatim>\<open>grid[br*3 + i][bc*3 + j] for i, j in product(range(3), repeat=2)\<close> of the
  box in band \<open>br\<close> and stack \<open>bc\<close>.
\<close>

definition box_values :: "sudoku_grid \<Rightarrow> nat \<Rightarrow> nat \<Rightarrow> int list" where
  "box_values g br bc = map (\<lambda>(i, j). g ! (br * 3 + i) ! (bc * 3 + j)) (product_range 3)"

text \<open>
  \<^verbatim>\<open>get_possible_numbers(grid)\<close>. The function has no effect but its result, and the only
  exception it can raise is the \<^verbatim>\<open>IndexError\<close> of a subscript \<^verbatim>\<open>grid[i][j]\<close>, so the test
  for it stands first. \<^verbatim>\<open>rows_possible\<close> has one set for every row of the argument,
  however many there are; the boxes are appended in the order of
  \<^verbatim>\<open>product(range(3), repeat=2)\<close>.
\<close>

definition get_possible_numbers ::
  "sudoku_grid \<Rightarrow> py_error + (int set list \<times> int set list \<times> int set list)" where
  "get_possible_numbers g =
     (if \<not> subscriptable g then Inl IndexError
      else Inr (map (\<lambda>row. all_numbers - set row) g,
                map (\<lambda>j. all_numbers - set (column_values g j)) [0..<9],
                map (\<lambda>(br, bc). all_numbers - set (box_values g br bc)) (product_range 3)))"

section \<open>Validation: \<^verbatim>\<open>is_valid_initial_sudoku\<close>\<close>

text \<open>
  \<^verbatim>\<open>len(nums) != len(set(nums))\<close>: the test the three loops apply to the non-zero values
  of a row, a column and a box.
\<close>

definition has_duplicates :: "int list \<Rightarrow> bool" where
  "has_duplicates nums \<longleftrightarrow> length nums \<noteq> card (set nums)"

text \<open>
  The three loops. Each returns \<open>Inr False\<close> where the Python returns \<^verbatim>\<open>False\<close> from
  inside the loop, \<open>Inr True\<close> when the loop runs to its end, and the exception when a
  subscript is out of range.
\<close>

fun rows_loop :: "sudoku_grid \<Rightarrow> nat list \<Rightarrow> py_error + bool" where
  "rows_loop g [] = Inr True"
| "rows_loop g (i # rest) =
     (if \<not> i < length g then Inl IndexError
      else let row_nums = filter (\<lambda>n. n \<noteq> 0) (g ! i) in
        if has_duplicates row_nums then Inr False else rows_loop g rest)"

fun cols_loop :: "sudoku_grid \<Rightarrow> nat list \<Rightarrow> py_error + bool" where
  "cols_loop g [] = Inr True"
| "cols_loop g (j # rest) =
     (if \<not> list_all (\<lambda>i. i < length g \<and> j < length (g ! i)) [0..<9] then Inl IndexError
      else let col_nums = filter (\<lambda>n. n \<noteq> 0) (column_values g j) in
        if has_duplicates col_nums then Inr False else cols_loop g rest)"

fun boxes_loop :: "sudoku_grid \<Rightarrow> (nat \<times> nat) list \<Rightarrow> py_error + bool" where
  "boxes_loop g [] = Inr True"
| "boxes_loop g ((br, bc) # rest) =
     (if \<not> list_all (\<lambda>(i, j). br * 3 + i < length g \<and> bc * 3 + j < length (g ! (br * 3 + i)))
              (product_range 3)
      then Inl IndexError
      else let nums = filter (\<lambda>n. n \<noteq> 0) (box_values g br bc) in
        if has_duplicates nums then Inr False else boxes_loop g rest)"

definition is_valid_initial_sudoku :: "sudoku_grid \<Rightarrow> py_error + bool" where
  "is_valid_initial_sudoku g =
     (case rows_loop g [0..<9] of
        Inl e \<Rightarrow> Inl e
      | Inr rows_done \<Rightarrow>
          if \<not> rows_done then Inr False
          else (case cols_loop g [0..<9] of
                  Inl e \<Rightarrow> Inl e
                | Inr cols_done \<Rightarrow>
                    if \<not> cols_done then Inr False
                    else boxes_loop g (product_range 3)))"

section \<open>The search: \<^verbatim>\<open>solve_sudoku\<close> and its nested \<^verbatim>\<open>backtrack\<close>\<close>

text \<open>
  The scan \<^verbatim>\<open>for row, col in product(range(9), repeat=2): if grid[row][col] == 0:\<close>.
  Every path through the body of the \<^verbatim>\<open>if\<close> returns, so the scan only looks for the
  first empty cell: \<open>Inr (Some (row, col))\<close> when there is one, \<open>Inr None\<close> when the loop
  runs to its end.
\<close>

fun first_empty :: "sudoku_grid \<Rightarrow> (nat \<times> nat) list \<Rightarrow> py_error + (nat \<times> nat) option" where
  "first_empty g [] = Inr None"
| "first_empty g ((row, col) # rest) =
     (if \<not> (row < length g \<and> col < length (g ! row)) then Inl IndexError
      else if g ! row ! col = 0 then Inr (Some (row, col))
      else first_empty g rest)"

text \<open>The assignment \<^verbatim>\<open>grid[row][col] = v\<close>.\<close>

definition set_cell :: "sudoku_grid \<Rightarrow> nat \<Rightarrow> nat \<Rightarrow> int \<Rightarrow> py_error + sudoku_grid" where
  "set_cell g row col v =
     (if \<not> (row < length g \<and> col < length (g ! row)) then Inl IndexError
      else Inr (g[row := (g ! row)[col := v]]))"

text \<open>\<^verbatim>\<open>sets[i].remove(v)\<close> and \<^verbatim>\<open>sets[i].add(v)\<close> on a list of sets.\<close>

definition remove_at :: "int set list \<Rightarrow> nat \<Rightarrow> int \<Rightarrow> py_error + int set list" where
  "remove_at sets i v =
     (if \<not> i < length sets then Inl IndexError
      else if v \<notin> sets ! i then Inl KeyError
      else Inr (sets[i := sets ! i - {v}]))"

definition add_at :: "int set list \<Rightarrow> nat \<Rightarrow> int \<Rightarrow> py_error + int set list" where
  "add_at sets i v =
     (if \<not> i < length sets then Inl IndexError
      else Inr (sets[i := insert v (sets ! i)]))"

text \<open>
  The three \<^verbatim>\<open>remove\<close> statements after a digit is written into the grid (the spec's
  Place), and the three \<^verbatim>\<open>add\<close> statements after it is taken back (the spec's Unplace),
  in the order of the source.
\<close>

definition place :: "state \<Rightarrow> nat \<Rightarrow> nat \<Rightarrow> nat \<Rightarrow> int \<Rightarrow> py_error + state" where
  "place st row col box_index num =
     (case remove_at (rows_possible st) row num of
        Inl e \<Rightarrow> Inl e
      | Inr rp \<Rightarrow>
          (case remove_at (cols_possible st) col num of
             Inl e \<Rightarrow> Inl e
           | Inr cp \<Rightarrow>
               (case remove_at (boxes_possible st) box_index num of
                  Inl e \<Rightarrow> Inl e
                | Inr bp \<Rightarrow>
                    Inr (st\<lparr>rows_possible := rp, cols_possible := cp, boxes_possible := bp\<rparr>))))"

definition unplace :: "state \<Rightarrow> nat \<Rightarrow> nat \<Rightarrow> nat \<Rightarrow> int \<Rightarrow> py_error + state" where
  "unplace st row col box_index num =
     (case add_at (rows_possible st) row num of
        Inl e \<Rightarrow> Inl e
      | Inr rp \<Rightarrow>
          (case add_at (cols_possible st) col num of
             Inl e \<Rightarrow> Inl e
           | Inr cp \<Rightarrow>
               (case add_at (boxes_possible st) box_index num of
                  Inl e \<Rightarrow> Inl e
                | Inr bp \<Rightarrow>
                    Inr (st\<lparr>rows_possible := rp, cols_possible := cp, boxes_possible := bp\<rparr>))))"

text \<open>
  \<^verbatim>\<open>for num in candidates\<close> iterates over a Python set, whose order the language leaves
  open. The model takes the order as a parameter \<open>pri\<close>, which may depend on the grid at
  that moment: the elements are visited by increasing \<open>pri\<close>, elements of equal \<open>pri\<close> in
  ascending order. Every order in which a finite set can be visited, each element once,
  is the order of some \<open>pri\<close> (\<open>every_order_is_an_iteration_order\<close> below), so a theorem
  about every \<open>pri\<close> is a theorem about every order.
\<close>

definition iteration_order :: "(sudoku_grid \<Rightarrow> int \<Rightarrow> nat) \<Rightarrow> sudoku_grid \<Rightarrow> int set \<Rightarrow> int list" where
  "iteration_order pri g s = sort_key (pri g) (sorted_list_of_set s)"

text \<open>
  \<^verbatim>\<open>backtrack\<close> and the loop \<^verbatim>\<open>for num in candidates\<close> inside it. The state is passed in
  and returned; the loop goes on with the state that the recursive call and the four
  undoing statements leave behind.
\<close>

function backtrack :: "(sudoku_grid \<Rightarrow> int \<Rightarrow> nat) \<Rightarrow> state \<Rightarrow> py_error + (bool \<times> state)"
  and try_candidates ::
    "(sudoku_grid \<Rightarrow> int \<Rightarrow> nat) \<Rightarrow> state \<Rightarrow> nat \<Rightarrow> nat \<Rightarrow> nat \<Rightarrow> int list \<Rightarrow> py_error + (bool \<times> state)"
where
  "backtrack pri st =
     (case first_empty (grid st) (product_range 9) of
        Inl e \<Rightarrow> Inl e
      | Inr None \<Rightarrow> Inr (True, st)
      | Inr (Some (row, col)) \<Rightarrow>
          (let box_index = (row div 3) * 3 + col div 3 in
           if \<not> (row < length (rows_possible st) \<and> col < length (cols_possible st)
                  \<and> box_index < length (boxes_possible st))
           then Inl IndexError
           else let candidates = rows_possible st ! row \<inter> cols_possible st ! col
                                   \<inter> boxes_possible st ! box_index in
             if candidates = {} then Inr (False, st)
             else try_candidates pri st row col box_index
                    (iteration_order pri (grid st) candidates)))"
| "try_candidates pri st row col box_index [] = Inr (False, st)"
| "try_candidates pri st row col box_index (num # rest) =
     (case set_cell (grid st) row col num of
        Inl e \<Rightarrow> Inl e
      | Inr g1 \<Rightarrow>
     (case place (st\<lparr>grid := g1\<rparr>) row col box_index num of
        Inl e \<Rightarrow> Inl e
      | Inr st1 \<Rightarrow>
     (case backtrack pri st1 of
        Inl e \<Rightarrow> Inl e
      | Inr (solved, st2) \<Rightarrow>
          if solved then Inr (True, st2)
          else
     (case set_cell (grid st2) row col 0 of
        Inl e \<Rightarrow> Inl e
      | Inr g3 \<Rightarrow>
     (case unplace (st2\<lparr>grid := g3\<rparr>) row col box_index num of
        Inl e \<Rightarrow> Inl e
      | Inr st3 \<Rightarrow> try_candidates pri st3 row col box_index rest)))))"
  by pat_completeness auto

subsection \<open>Termination of the search\<close>

text \<open>
  The recursion is nested: the loop goes on with the state that the recursive call
  returns. A call that returns \<^verbatim>\<open>False\<close> returns the state it was given, which is proved
  first, for the arguments on which the function is known to terminate. The measure is
  the number of zeros in the grid; a set of \<^verbatim>\<open>rows_possible\<close> that holds 0 counts too, since
  writing the candidate 0 leaves the grid as it is and takes 0 out of such a set.
\<close>

definition zero_count :: "sudoku_grid \<Rightarrow> nat" where
  "zero_count g = sum_list (map (\<lambda>row. count_list row 0) g)"

definition zero_sets :: "int set list \<Rightarrow> nat" where
  "zero_sets sets = length (filter (\<lambda>s. 0 \<in> s) sets)"

definition weight :: "state \<Rightarrow> nat" where
  "weight st = zero_count (grid st) + zero_sets (rows_possible st)"

definition cleared :: "state \<Rightarrow> nat \<Rightarrow> nat \<Rightarrow> state" where
  "cleared st row col = st\<lparr>grid := (grid st)[row := (grid st ! row)[col := 0]]\<rparr>"

lemma count_list_update:
  "i < length xs \<Longrightarrow>
     count_list (xs[i := 0]) (0::int) = count_list (xs[i := v]) 0 + (if v = 0 then 0 else 1)"
  by (induction xs arbitrary: i) (auto split: nat.splits)

lemma sum_list_map_update:
  "r < length g \<Longrightarrow>
     sum_list (map f (g[r := x])) + f (g ! r) = sum_list (map f g) + (f x :: nat)"
  by (induction g arbitrary: r) (auto split: nat.splits)

lemma zero_count_update:
  assumes "row < length g" "col < length (g ! row)"
  shows "zero_count (g[row := (g ! row)[col := 0]]) =
         zero_count (g[row := (g ! row)[col := v]]) + (if v = 0 then 0 else 1)"
proof -
  let ?f = "\<lambda>row. count_list row (0::int)"
  have a: "sum_list (map ?f (g[row := (g ! row)[col := 0]])) + ?f (g ! row)
           = sum_list (map ?f g) + ?f ((g ! row)[col := 0])"
    using assms(1) by (rule sum_list_map_update)
  have b: "sum_list (map ?f (g[row := (g ! row)[col := v]])) + ?f (g ! row)
           = sum_list (map ?f g) + ?f ((g ! row)[col := v])"
    using assms(1) by (rule sum_list_map_update)
  from a b count_list_update[OF assms(2), of v] show ?thesis
    unfolding zero_count_def by (simp split: if_splits)
qed

lemma zero_sets_remove:
  "i < length sets \<Longrightarrow> v \<in> sets ! i \<Longrightarrow>
     zero_sets (sets[i := sets ! i - {v}]) + (if v = 0 then 1 else 0) = zero_sets sets"
  unfolding zero_sets_def
  by (induction sets arbitrary: i) (auto split: nat.splits)

lemma place_Inr:
  "place st row col b num = Inr st' \<longleftrightarrow>
     row < length (rows_possible st) \<and> col < length (cols_possible st) \<and> b < length (boxes_possible st)
     \<and> num \<in> rows_possible st ! row \<and> num \<in> cols_possible st ! col \<and> num \<in> boxes_possible st ! b
     \<and> st' = st\<lparr>rows_possible := (rows_possible st)[row := rows_possible st ! row - {num}],
                cols_possible := (cols_possible st)[col := cols_possible st ! col - {num}],
                boxes_possible := (boxes_possible st)[b := boxes_possible st ! b - {num}]\<rparr>"
  by (auto simp: place_def remove_at_def split: sum.splits if_splits)

lemma unplace_Inr:
  "unplace st row col b num = Inr st' \<longleftrightarrow>
     row < length (rows_possible st) \<and> col < length (cols_possible st) \<and> b < length (boxes_possible st)
     \<and> st' = st\<lparr>rows_possible := (rows_possible st)[row := insert num (rows_possible st ! row)],
                cols_possible := (cols_possible st)[col := insert num (cols_possible st ! col)],
                boxes_possible := (boxes_possible st)[b := insert num (boxes_possible st ! b)]\<rparr>"
  by (auto simp: unplace_def add_at_def split: sum.splits if_splits)

lemma set_cell_Inr:
  "set_cell g row col v = Inr g' \<longleftrightarrow>
     row < length g \<and> col < length (g ! row) \<and> g' = g[row := (g ! row)[col := v]]"
  by (auto simp: set_cell_def)

lemma first_empty_Some:
  "first_empty g cells = Inr (Some (row, col)) \<Longrightarrow>
     row < length g \<and> col < length (g ! row) \<and> g ! row ! col = 0 \<and> (row, col) \<in> set cells"
  by (induction g cells rule: first_empty.induct) (auto split: if_splits)

lemma cleared_idem: "cleared (cleared st row col) row col = cleared st row col"
  by (cases "row < length (grid st)") (simp_all add: cleared_def list_update_beyond)

lemma round_trip:
  assumes "set_cell (grid st) row col num = Inr g1"
    and "place (st\<lparr>grid := g1\<rparr>) row col b num = Inr st1"
    and "set_cell (grid st1) row col 0 = Inr g3"
    and "unplace (st1\<lparr>grid := g3\<rparr>) row col b num = Inr st3"
  shows "st3 = cleared st row col"
  using assms
  by (auto simp: set_cell_Inr place_Inr unplace_Inr cleared_def insert_absorb)

lemma restored_partial:
  "backtrack_try_candidates_dom (Inl (pri, st)) \<Longrightarrow>
     backtrack pri st = Inr (False, s) \<Longrightarrow> s = st"
  "backtrack_try_candidates_dom (Inr (pri, st, row, col, b, cands)) \<Longrightarrow>
     try_candidates pri st row col b cands = Inr (False, s) \<Longrightarrow> s = st \<or> s = cleared st row col"
proof (induction pri st and pri st row col b cands arbitrary: s and s rule: backtrack_try_candidates.pinduct)
  case (1 pri st)
  show ?case
  proof (cases "first_empty (grid st) (product_range 9)")
    case (Inl e)
    with "1.prems" show ?thesis by (simp add: backtrack.psimps[OF "1.hyps"])
  next
    case (Inr found)
    show ?thesis
    proof (cases found)
      case None
      with Inr "1.prems" show ?thesis by (simp add: backtrack.psimps[OF "1.hyps"])
    next
      case (Some cell)
      obtain row col where cell: "cell = (row, col)" by (cases cell)
      from first_empty_Some[OF Inr[unfolded Some cell]]
      have zero: "row < length (grid st)" "col < length (grid st ! row)" "grid st ! row ! col = 0"
        by auto
      have "(grid st ! row)[col := 0] = grid st ! row"
        using zero(3) list_update_id[of "grid st ! row" col] by simp
      then have same: "cleared st row col = st"
        by (simp add: cleared_def)
      have "s = st \<or> s = cleared st row col"
        using "1.IH" "1.prems" Inr Some cell
        by (auto simp: backtrack.psimps[OF "1.hyps"] Let_def split: if_splits)
      with same show ?thesis by simp
    qed
  qed
next
  case (2 pri st row col box_index)
  then show ?case by (simp add: backtrack.psimps try_candidates.psimps)
next
  case (3 pri st row col box_index num rest)
  from "3.prems" obtain g1 st1 st2 g3 st3 where
    a: "set_cell (grid st) row col num = Inr g1"
    and b: "place (st\<lparr>grid := g1\<rparr>) row col box_index num = Inr st1"
    and c: "backtrack pri st1 = Inr (False, st2)"
    and d: "set_cell (grid st2) row col 0 = Inr g3"
    and e: "unplace (st2\<lparr>grid := g3\<rparr>) row col box_index num = Inr st3"
    and f: "try_candidates pri st3 row col box_index rest = Inr (False, s)"
    by (auto simp: try_candidates.psimps(2)[OF "3.hyps"] split: sum.splits prod.splits if_splits)
  have st2: "st2 = st1" using "3.IH"(1)[OF a b c] .
  have st3: "st3 = cleared st row col" using round_trip[OF a b d[unfolded st2] e[unfolded st2]] .
  have "s = st3 \<or> s = cleared st3 row col"
    using "3.IH"(2)[OF a b c _ _ d e f] by blast
  then show ?case unfolding st3 by (simp add: cleared_idem)
qed

lemma cleared_first_empty:
  assumes "first_empty (grid st) cells = Inr (Some (row, col))"
  shows "cleared st row col = st"
proof -
  from first_empty_Some[OF assms]
  have "grid st ! row ! col = 0" by simp
  then have "(grid st ! row)[col := 0] = grid st ! row"
    using list_update_id[of "grid st ! row" col] by simp
  then show ?thesis by (simp add: cleared_def)
qed

lemma weight_place:
  assumes "set_cell (grid st) row col num = Inr g1"
    and "place (st\<lparr>grid := g1\<rparr>) row col b num = Inr st1"
  shows "weight st1 < weight (cleared st row col)"
proof -
  from assms(1) have rng: "row < length (grid st)" "col < length (grid st ! row)"
    and g1: "g1 = (grid st)[row := (grid st ! row)[col := num]]"
    by (simp_all add: set_cell_Inr)
  from assms(2) have mem: "row < length (rows_possible st)" "num \<in> rows_possible st ! row"
    and grid1: "grid st1 = g1"
    and rows1: "rows_possible st1 = (rows_possible st)[row := rows_possible st ! row - {num}]"
    by (simp_all add: place_Inr)
  have a: "zero_count (grid (cleared st row col)) = zero_count (grid st1) + (if num = 0 then 0 else 1)"
    using zero_count_update[OF rng, of num] by (simp add: cleared_def grid1 g1)
  have b: "zero_sets (rows_possible st1) + (if num = 0 then 1 else 0) = zero_sets (rows_possible (cleared st row col))"
    using zero_sets_remove[OF mem] by (simp add: cleared_def rows1)
  from a b show ?thesis by (simp add: weight_def split: if_splits)
qed

definition call_weight ::
  "(sudoku_grid \<Rightarrow> int \<Rightarrow> nat) \<times> state +
   (sudoku_grid \<Rightarrow> int \<Rightarrow> nat) \<times> state \<times> nat \<times> nat \<times> nat \<times> int list \<Rightarrow> nat" where
  "call_weight x =
     (case x of Inl (pri, st) \<Rightarrow> weight st
      | Inr (pri, st, row, col, b, cands) \<Rightarrow> weight (cleared st row col))"

definition call_rank ::
  "(sudoku_grid \<Rightarrow> int \<Rightarrow> nat) \<times> state +
   (sudoku_grid \<Rightarrow> int \<Rightarrow> nat) \<times> state \<times> nat \<times> nat \<times> nat \<times> int list \<Rightarrow> nat" where
  "call_rank x =
     (case x of Inl (pri, st) \<Rightarrow> 1
      | Inr (pri, st, row, col, b, cands) \<Rightarrow> 0)"

definition call_todo ::
  "(sudoku_grid \<Rightarrow> int \<Rightarrow> nat) \<times> state +
   (sudoku_grid \<Rightarrow> int \<Rightarrow> nat) \<times> state \<times> nat \<times> nat \<times> nat \<times> int list \<Rightarrow> nat" where
  "call_todo x =
     (case x of Inl (pri, st) \<Rightarrow> 0
      | Inr (pri, st, row, col, b, cands) \<Rightarrow> length cands)"

lemma backtrack_total: "backtrack_try_candidates_dom call"
proof -
  have "All backtrack_try_candidates_dom"
  proof (rule "backtrack_try_candidates.termination"
      [of "measures [call_weight, call_rank, call_todo]"], goal_cases)
    case 1
    show ?case by simp
  next
    case (2 pri st found cell row col box_index candidates)
    then have "first_empty (grid st) (product_range 9) = Inr (Some (row, col))" by simp
    from cleared_first_empty[OF this] show ?case
      by (simp add: call_weight_def call_rank_def)
  next
    case (3 pri st row col box_index num rest g1 st1)
    from weight_place[OF 3] show ?case
      by (simp add: call_weight_def)
  next
    case (4 pri st row col box_index num rest g1 st1 res solved st2 g3 st3)
    from 4 have bt: "backtrack pri st1 = Inr (False, st2)" by simp
    have st2: "st2 = st1" using restored_partial(1)[OF 4(8) bt] .
    have st3: "st3 = cleared st row col"
      using round_trip[OF 4(1) 4(2) 4(6)[unfolded st2] 4(7)[unfolded st2]] .
    show ?case
      by (simp add: call_weight_def call_rank_def call_todo_def st3 cleared_idem)
  qed
  then show ?thesis ..
qed

termination backtrack
  by (simp add: backtrack_total)

lemmas restored = restored_partial[OF backtrack_total]

declare backtrack.simps [simp del]

text \<open>
  \<^verbatim>\<open>solve_sudoku(grid)\<close>: the result is the returned truth value together with the grid
  as the call leaves it, since the caller's list is changed in place.
\<close>

definition solve_sudoku ::
  "(sudoku_grid \<Rightarrow> int \<Rightarrow> nat) \<Rightarrow> sudoku_grid \<Rightarrow> py_error + (bool \<times> sudoku_grid)" where
  "solve_sudoku pri g =
     (case get_possible_numbers g of
        Inl e \<Rightarrow> Inl e
      | Inr (rp, cp, bp) \<Rightarrow>
          (case backtrack pri \<lparr>grid = g, rows_possible = rp, cols_possible = cp,
                                boxes_possible = bp\<rparr> of
             Inl e \<Rightarrow> Inl e
           | Inr (solved, st) \<Rightarrow> Inr (solved, grid st)))"

section \<open>The vocabulary of the claims\<close>

subsection \<open>Rows, columns and boxes as lists of cells\<close>

text \<open>
  The claims speak of the rows, columns and boxes of a 9 by 9 grid. \<open>grid9 g\<close> says that
  \<open>g\<close> has nine rows of nine cells.
\<close>

definition grid9 :: "sudoku_grid \<Rightarrow> bool" where
  "grid9 g \<longleftrightarrow> length g = 9 \<and> list_all (\<lambda>row. length row = 9) g"

text \<open>
  The box index of a cell, \<open>(row div 3) * 3 + col div 3\<close>, as \<^verbatim>\<open>backtrack\<close> computes it.
\<close>

definition box_of :: "nat \<Rightarrow> nat \<Rightarrow> nat" where
  "box_of r c = (r div 3) * 3 + c div 3"

text \<open>
  A unit is the list of its nine cells, in row-major order. Box \<open>b\<close> holds the cells whose
  box index is \<open>b\<close>; that these are the cells the loops of the source visit is proved
  below (\<open>box_cells_enum\<close>), not assumed.
\<close>

definition row_cells :: "nat \<Rightarrow> (nat \<times> nat) list" where
  "row_cells r = map (\<lambda>c. (r, c)) [0..<9]"

definition col_cells :: "nat \<Rightarrow> (nat \<times> nat) list" where
  "col_cells c = map (\<lambda>r. (r, c)) [0..<9]"

definition box_cells :: "nat \<Rightarrow> (nat \<times> nat) list" where
  "box_cells b = filter (\<lambda>(r, c). box_of r c = b) (product_range 9)"

definition units :: "(nat \<times> nat) list list" where
  "units = map row_cells [0..<9] @ map col_cells [0..<9] @ map box_cells [0..<9]"

text \<open>
  The values a grid holds in a list of cells, those among them that are not 0, and the
  set of the latter: the digits present in a unit.
\<close>

definition values_at :: "sudoku_grid \<Rightarrow> (nat \<times> nat) list \<Rightarrow> int list" where
  "values_at g cells = map (\<lambda>(r, c). g ! r ! c) cells"

definition nonzero :: "int list \<Rightarrow> int list" where
  "nonzero xs = filter (\<lambda>v. v \<noteq> 0) xs"

definition digits_present :: "sudoku_grid \<Rightarrow> (nat \<times> nat) list \<Rightarrow> int set" where
  "digits_present g cells = set (nonzero (values_at g cells))"

subsection \<open>Valid grids, solved grids, completions\<close>

text \<open>
  In every row, every column and every box the non-zero values are pairwise distinct.
\<close>

definition no_duplicate_digits :: "sudoku_grid \<Rightarrow> bool" where
  "no_duplicate_digits g \<longleftrightarrow> list_all (\<lambda>cells. distinct (nonzero (values_at g cells))) units"

text \<open>
  Every cell holds an integer between 0 and 9, as the grids of the spec do.
\<close>

definition entries09 :: "sudoku_grid \<Rightarrow> bool" where
  "entries09 g \<longleftrightarrow> list_all (\<lambda>row. list_all (\<lambda>v. 0 \<le> v \<and> v \<le> 9) row) g"

text \<open>
  A list contains each of the digits 1 to 9 exactly once; a grid is solved when it is
  9 by 9 and that holds for the values of each of its 27 units.
\<close>

definition exactly_once :: "int list \<Rightarrow> bool" where
  "exactly_once xs \<longleftrightarrow> list_all (\<lambda>d. count_list xs d = 1) [1..9]"

definition solved_grid :: "sudoku_grid \<Rightarrow> bool" where
  "solved_grid g \<longleftrightarrow> grid9 g \<and> list_all (\<lambda>cells. exactly_once (values_at g cells)) units"

text \<open>
  \<open>sol\<close> is a completion of \<open>g\<close>: a 9 by 9 grid that has a digit from 1 to 9 where \<open>g\<close>
  has 0 and the value of \<open>g\<close> everywhere else.
\<close>

definition completes :: "sudoku_grid \<Rightarrow> sudoku_grid \<Rightarrow> bool" where
  "completes g sol \<longleftrightarrow>
     grid9 sol \<and>
     list_all (\<lambda>(r, c). if g ! r ! c = 0 then 1 \<le> sol ! r ! c \<and> sol ! r ! c \<le> 9
                         else sol ! r ! c = g ! r ! c) (product_range 9)"

definition valid_entries :: "sudoku_grid \<Rightarrow> bool" where
  "valid_entries g \<longleftrightarrow> no_duplicate_digits g \<and> entries09 g"

subsection \<open>The state of the search\<close>

text \<open>
  The three lists of sets are what \<^verbatim>\<open>get_possible_numbers\<close> returns for the grid as it
  now stands, and the grid is 9 by 9. This is the invariant of the search.
\<close>

definition consistent :: "state \<Rightarrow> bool" where
  "consistent st \<longleftrightarrow>
     grid9 (grid st) \<and>
     get_possible_numbers (grid st) = Inr (rows_possible st, cols_possible st, boxes_possible st)"

text \<open>
  \<open>g'\<close> has the shape of \<open>g\<close> and the value of \<open>g\<close> in every cell where \<open>g\<close> is not 0.
\<close>

definition keeps :: "sudoku_grid \<Rightarrow> sudoku_grid \<Rightarrow> bool" where
  "keeps g g' \<longleftrightarrow>
     length g' = length g \<and> (\<forall>r. length (g' ! r) = length (g ! r))
     \<and> (\<forall>r c. g ! r ! c \<noteq> 0 \<longrightarrow> g' ! r ! c = g ! r ! c)"

text \<open>
  What a call of \<^verbatim>\<open>backtrack\<close>, or a run of its loop, gives from a consistent state: it
  returns (no exception) in a consistent state; when it returns \<^verbatim>\<open>True\<close> the grid has no
  empty cell; the grid is without duplicates and within 0 to 9 if it was so before; and
  when it returns \<^verbatim>\<open>False\<close> no solved completion of the grid is among those \<open>tried\<close>.
\<close>

definition outcome :: "state \<Rightarrow> (sudoku_grid \<Rightarrow> bool) \<Rightarrow> py_error + bool \<times> state \<Rightarrow> bool" where
  "outcome st tried res \<longleftrightarrow>
     (\<exists>ok s. res = Inr (ok, s) \<and> consistent s
        \<and> (ok \<longrightarrow> first_empty (grid s) (product_range 9) = Inr None)
        \<and> (valid_entries (grid st) \<longrightarrow> valid_entries (grid s))
        \<and> (\<not> ok \<longrightarrow> (\<forall>sol. completes (grid st) sol \<and> solved_grid sol \<longrightarrow> \<not> tried sol)))"

text \<open>
  The invariant of the possibility state as the spec words it: for every filled cell
  its value is absent from the sets of its row, its column and its box; for every empty
  cell a digit from 1 to 9 is in all three sets if and only if it occurs neither in the
  row, nor in the column, nor in the box of the cell.
\<close>

definition possibility_invariant :: "state \<Rightarrow> bool" where
  "possibility_invariant st \<longleftrightarrow>
     list_all (\<lambda>(r, c).
        if grid st ! r ! c \<noteq> 0
        then grid st ! r ! c \<notin> rows_possible st ! r
           \<and> grid st ! r ! c \<notin> cols_possible st ! c
           \<and> grid st ! r ! c \<notin> boxes_possible st ! (box_of r c)
        else list_all (\<lambda>d.
           (d \<in> rows_possible st ! r \<and> d \<in> cols_possible st ! c
              \<and> d \<in> boxes_possible st ! (box_of r c))
           = (d \<notin> set (values_at (grid st) (row_cells r))
              \<and> d \<notin> set (values_at (grid st) (col_cells c))
              \<and> d \<notin> set (values_at (grid st) (box_cells (box_of r c))))) [1..9])
       (product_range 9)"

subsection \<open>The points of the search\<close>

text \<open>
  "Throughout the search" is made precise by the points the execution passes.
  \<open>AtCall st\<close>: \<^verbatim>\<open>backtrack\<close> is entered in state \<open>st\<close> (at the start, and after every three
  \<^verbatim>\<open>remove\<close> statements). \<open>InLoop st row col box_index cands\<close>: the loop over the
  candidates of cell \<open>(row, col)\<close> is at its head in state \<open>st\<close> with \<open>cands\<close> still to
  try (on entry, and after every three \<^verbatim>\<open>add\<close> statements).
\<close>

datatype point = AtCall state | InLoop state nat nat nat "int list"

fun point_state :: "point \<Rightarrow> state" where
  "point_state (AtCall st) = st"
| "point_state (InLoop st row col box_index cands) = st"

text \<open>
  One step from point to point. The three rules are the three recursive calls in the
  definition of \<open>backtrack\<close> and \<open>try_candidates\<close>, each under the conditions
  under which the definition makes it.
\<close>

inductive step :: "(sudoku_grid \<Rightarrow> int \<Rightarrow> nat) \<Rightarrow> point \<Rightarrow> point \<Rightarrow> bool"
  for pri :: "sudoku_grid \<Rightarrow> int \<Rightarrow> nat"
where
  enter_loop:
    "first_empty (grid st) (product_range 9) = Inr (Some (row, col)) \<Longrightarrow>
     box_index = (row div 3) * 3 + col div 3 \<Longrightarrow>
     row < length (rows_possible st) \<Longrightarrow> col < length (cols_possible st) \<Longrightarrow>
     box_index < length (boxes_possible st) \<Longrightarrow>
     candidates = rows_possible st ! row \<inter> cols_possible st ! col
                    \<inter> boxes_possible st ! box_index \<Longrightarrow>
     candidates \<noteq> {} \<Longrightarrow>
     step pri (AtCall st)
       (InLoop st row col box_index (iteration_order pri (grid st) candidates))"
| recurse:
    "set_cell (grid st) row col num = Inr g1 \<Longrightarrow>
     place (st\<lparr>grid := g1\<rparr>) row col box_index num = Inr st1 \<Longrightarrow>
     step pri (InLoop st row col box_index (num # rest)) (AtCall st1)"
| undo:
    "set_cell (grid st) row col num = Inr g1 \<Longrightarrow>
     place (st\<lparr>grid := g1\<rparr>) row col box_index num = Inr st1 \<Longrightarrow>
     backtrack pri st1 = Inr (False, st2) \<Longrightarrow>
     set_cell (grid st2) row col 0 = Inr g3 \<Longrightarrow>
     unplace (st2\<lparr>grid := g3\<rparr>) row col box_index num = Inr st3 \<Longrightarrow>
     step pri (InLoop st row col box_index (num # rest)) (InLoop st3 row col box_index rest)"

code_pred step .

text \<open>
  What holds at every point that is reached from a consistent state.
\<close>

fun point_ok :: "point \<Rightarrow> bool" where
  "point_ok (AtCall st) \<longleftrightarrow> consistent st"
| "point_ok (InLoop st row col box_index cands) \<longleftrightarrow>
     consistent st \<and> row < 9 \<and> col < 9 \<and> grid st ! row ! col = 0 \<and> box_index = box_of row col
     \<and> set cands \<subseteq> rows_possible st ! row \<inter> cols_possible st ! col
                     \<inter> boxes_possible st ! box_index"

subsection \<open>Examples\<close>

text \<open>
  The order that visits candidates in ascending order; a well-known puzzle; a grid with
  the digit 5 twice in its first row; the state \<^verbatim>\<open>get_possible_numbers\<close> builds for a
  grid with a single 5; a grid that passes the validation and has no solution (cell
  (0, 1) has no candidate left); a solved grid; and the solved grid with three cells
  emptied, where the search first writes 2 into cell (0, 2), fails at cell (0, 8) and
  takes the 2 back.
\<close>

definition ascending :: "sudoku_grid \<Rightarrow> int \<Rightarrow> nat" where
  "ascending g v = 0"

definition example_puzzle :: sudoku_grid where
  "example_puzzle =
     [[5, 3, 0, 0, 7, 0, 0, 0, 0],
      [6, 0, 0, 1, 9, 5, 0, 0, 0],
      [0, 9, 8, 0, 0, 0, 0, 6, 0],
      [8, 0, 0, 0, 6, 0, 0, 0, 3],
      [4, 0, 0, 8, 0, 3, 0, 0, 1],
      [7, 0, 0, 0, 2, 0, 0, 0, 6],
      [0, 6, 0, 0, 0, 0, 2, 8, 0],
      [0, 0, 0, 4, 1, 9, 0, 0, 5],
      [0, 0, 0, 0, 8, 0, 0, 7, 9]]"

definition example_duplicate :: sudoku_grid where
  "example_duplicate = [5, 5, 0, 0, 0, 0, 0, 0, 0] # replicate 8 (replicate 9 0)"

definition example_state :: state where
  "example_state =
     \<lparr>grid = [5, 0, 0, 0, 0, 0, 0, 0, 0] # replicate 8 (replicate 9 0),
      rows_possible = (all_numbers - {5}) # replicate 8 all_numbers,
      cols_possible = (all_numbers - {5}) # replicate 8 all_numbers,
      boxes_possible = (all_numbers - {5}) # replicate 8 all_numbers\<rparr>"

definition example_unsolvable :: sudoku_grid where
  "example_unsolvable =
     [[0, 0, 3, 4, 5, 6, 7, 8, 9],
      [0, 0, 0, 0, 0, 0, 0, 0, 0],
      [0, 0, 0, 0, 0, 0, 0, 0, 0],
      [0, 1, 0, 0, 0, 0, 0, 0, 0],
      [0, 2, 0, 0, 0, 0, 0, 0, 0],
      [0, 0, 0, 0, 0, 0, 0, 0, 0],
      [0, 0, 0, 0, 0, 0, 0, 0, 0],
      [0, 0, 0, 0, 0, 0, 0, 0, 0],
      [0, 0, 0, 0, 0, 0, 0, 0, 0]]"

definition example_solution :: sudoku_grid where
  "example_solution =
     [[5, 3, 4, 6, 7, 8, 9, 1, 2],
      [6, 7, 2, 1, 9, 5, 3, 4, 8],
      [1, 9, 8, 3, 4, 2, 5, 6, 7],
      [8, 5, 9, 7, 6, 1, 4, 2, 3],
      [4, 2, 6, 8, 5, 3, 7, 9, 1],
      [7, 1, 3, 9, 2, 4, 8, 5, 6],
      [9, 6, 1, 5, 3, 7, 2, 8, 4],
      [2, 8, 7, 4, 1, 9, 6, 3, 5],
      [3, 4, 5, 2, 8, 6, 1, 7, 9]]"

definition example_nearly :: sudoku_grid where
  "example_nearly =
     [[5, 3, 0, 6, 7, 8, 9, 1, 0],
      [6, 7, 0, 1, 9, 5, 3, 4, 8],
      [1, 9, 8, 3, 4, 2, 5, 6, 7],
      [8, 5, 9, 7, 6, 1, 4, 2, 3],
      [4, 2, 6, 8, 5, 3, 7, 9, 1],
      [7, 1, 3, 9, 2, 4, 8, 5, 6],
      [9, 6, 1, 5, 3, 7, 2, 8, 4],
      [2, 8, 7, 4, 1, 9, 6, 3, 5],
      [3, 4, 5, 2, 8, 6, 1, 7, 9]]"

section \<open>The order of iteration\<close>

text \<open>
  Every list without repetition is the order in which \<open>iteration_order\<close> visits its
  elements, for some \<open>pri\<close>: the parameter leaves the order of \<^verbatim>\<open>for num in candidates\<close>
  open, as Python does.
\<close>

lemma position_nth:
  assumes "distinct l" "i < length l"
  shows "length (takeWhile (\<lambda>x. x \<noteq> l ! i) l) = i"
proof -
  have "takeWhile (\<lambda>x. x \<noteq> l ! i) l = take i l"
  proof (rule takeWhile_eq_take_P_nth)
    fix j assume "j < i" "j < length l"
    with assms show "l ! j \<noteq> l ! i" by (simp add: nth_eq_iff_index_eq)
  next
    show "\<not> l ! i \<noteq> l ! i" by simp
  qed
  with assms(2) show ?thesis by simp
qed

lemma every_order_is_an_iteration_order:
  assumes "distinct l"
  shows "\<exists>pri. iteration_order pri g (set l) = l"
proof -
  define f where "f = (\<lambda>v. length (takeWhile (\<lambda>x. x \<noteq> v) l))"
  let ?xs = "sort_key f (sorted_list_of_set (set l))"
  have keys: "map f l = [0..<length l]"
    by (rule nth_equalityI) (simp_all add: f_def position_nth[OF assms])
  have inj: "inj_on f (set l)"
  proof (rule inj_onI)
    fix v w assume "v \<in> set l" "w \<in> set l" "f v = f w"
    then obtain i j where "i < length l" "v = l ! i" "j < length l" "w = l ! j"
      by (auto simp: in_set_conv_nth)
    with \<open>f v = f w\<close> position_nth[OF assms] show "v = w" by (simp add: f_def)
  qed
  have set_xs: "set ?xs = set l" by simp
  have "map f ?xs = map f l"
  proof (rule sorted_distinct_set_unique)
    show "sorted (map f ?xs)" by simp
    show "distinct (map f ?xs)" using inj by (simp add: distinct_map)
    show "sorted (map f l)" by (simp add: keys)
    show "distinct (map f l)" by (simp add: keys)
    show "set (map f ?xs) = set (map f l)" by simp
  qed
  with inj have "?xs = l"
    using inj_on_map_eq_map[of f ?xs l] by (simp add: set_xs)
  then have "iteration_order (\<lambda>_. f) g (set l) = l"
    by (simp add: iteration_order_def)
  then show ?thesis by (intro exI[of _ "\<lambda>_. f"])
qed

section \<open>The candidate tracker and the validation\<close>

lemma grid9_iff: "grid9 g \<longleftrightarrow> length g = 9 \<and> (\<forall>r<9. length (g ! r) = 9)"
  by (auto simp: grid9_def list_all_length)

lemma grid9_subscriptable: "grid9 g \<Longrightarrow> subscriptable g"
  by (simp add: grid9_iff subscriptable_def list_all_iff)

lemma in_row_cells [simp]: "(r, c) \<in> set (row_cells r') \<longleftrightarrow> r = r' \<and> c < 9"
  by (auto simp: row_cells_def)

lemma in_col_cells [simp]: "(r, c) \<in> set (col_cells c') \<longleftrightarrow> c = c' \<and> r < 9"
  by (auto simp: col_cells_def)

lemma in_box_cells [simp]: "(r, c) \<in> set (box_cells b) \<longleftrightarrow> r < 9 \<and> c < 9 \<and> box_of r c = b"
  by (auto simp: box_cells_def product_range_def)

lemma box_cells_enum:
  assumes "br < 3" "bc < 3"
  shows "box_cells (br * 3 + bc) = map (\<lambda>(i, j). (br * 3 + i, bc * 3 + j)) (product_range 3)"
proof -
  from assms have "br \<in> {0, 1, 2}" "bc \<in> {0, 1, 2}" by auto
  then show ?thesis
    by (elim insertE emptyE; hypsubst; code_simp)
qed

lemma product_range_3: "product_range 3 = map (\<lambda>b. (b div 3, b mod 3)) [0..<9]"
  by code_simp

lemma values_at_row: "grid9 g \<Longrightarrow> r < 9 \<Longrightarrow> values_at g (row_cells r) = g ! r"
proof -
  assume "grid9 g" "r < 9"
  then have len: "length (g ! r) = 9" by (simp add: grid9_iff)
  have "values_at g (row_cells r) = map (nth (g ! r)) [0..<length (g ! r)]"
    by (simp add: values_at_def row_cells_def o_def len)
  then show ?thesis by (simp add: map_nth)
qed

lemma values_at_col: "values_at g (col_cells c) = column_values g c"
  by (simp add: values_at_def col_cells_def column_values_def o_def)

lemma values_at_box:
  "br < 3 \<Longrightarrow> bc < 3 \<Longrightarrow> values_at g (box_cells (br * 3 + bc)) = box_values g br bc"
  by (simp add: box_cells_enum values_at_def box_values_def o_def split_def)

lemma all_numbers_minus: "all_numbers - set xs = {1..9} - set (nonzero xs)"
  by (auto simp: all_numbers_def nonzero_def)

lemma possible_rows:
  assumes "grid9 g"
  shows "map (\<lambda>row. all_numbers - set row) g
         = map (\<lambda>r. {1..9} - digits_present g (row_cells r)) [0..<9]"
proof (rule nth_equalityI)
  from assms show "length (map (\<lambda>row. all_numbers - set row) g)
      = length (map (\<lambda>r. {1..9} - digits_present g (row_cells r)) [0..<9])"
    by (simp add: grid9_iff)
next
  fix i assume "i < length (map (\<lambda>row. all_numbers - set row) g)"
  with assms have i: "i < 9" "i < length g" by (simp_all add: grid9_iff)
  from i show "map (\<lambda>row. all_numbers - set row) g ! i
      = map (\<lambda>r. {1..9} - digits_present g (row_cells r)) [0..<9] ! i"
    by (simp add: digits_present_def values_at_row[OF assms] all_numbers_minus del: upt_Suc)
qed

lemma possible_cols:
  "map (\<lambda>j. all_numbers - set (column_values g j)) [0..<9]
         = map (\<lambda>c. {1..9} - digits_present g (col_cells c)) [0..<9]"
  by (simp add: digits_present_def values_at_col all_numbers_minus del: upt_Suc)

lemma possible_boxes:
  "map (\<lambda>(br, bc). all_numbers - set (box_values g br bc)) (product_range 3)
         = map (\<lambda>b. {1..9} - digits_present g (box_cells b)) [0..<9]"
proof -
  have "all_numbers - set (box_values g (b div 3) (b mod 3)) = {1..9} - digits_present g (box_cells b)"
    if "b < 9" for b
  proof -
    from that have "b div 3 < 3" "b mod 3 < 3" by auto
    from values_at_box[OF this, of g] show ?thesis
      by (simp add: digits_present_def all_numbers_minus)
  qed
  then show ?thesis
    unfolding product_range_3 by (simp add: o_def del: upt_Suc)
qed

text \<open>
  Claim C7. For every 9 by 9 grid, \<^verbatim>\<open>get_possible_numbers\<close> returns, for each of the nine
  rows, nine columns and nine boxes in turn, the set of the digits 1 to 9 without the
  non-zero values present in that row, column or box. It raises nothing and rejects
  nothing, whatever the grid holds: there is no validation. The function of the model
  has no state to change, as the Python function assigns to nothing but its own local
  variables. The values need not lie between 0 and 9 for this to hold.
\<close>

theorem get_possible_numbers_correct:
  assumes "grid9 g"
  shows "get_possible_numbers g =
           Inr (map (\<lambda>r. {1..9} - digits_present g (row_cells r)) [0..<9],
                map (\<lambda>c. {1..9} - digits_present g (col_cells c)) [0..<9],
                map (\<lambda>b. {1..9} - digits_present g (box_cells b)) [0..<9])"
  using assms
  by (simp add: get_possible_numbers_def grid9_subscriptable possible_rows possible_cols
      possible_boxes del: upt_Suc)

theorem get_possible_numbers_witness:
  "get_possible_numbers example_puzzle =
     Inr ([{1, 2, 4, 6, 8, 9}, {2, 3, 4, 7, 8}, {1, 2, 3, 4, 5, 7}, {1, 2, 4, 5, 7, 9},
           {2, 5, 6, 7, 9}, {1, 3, 4, 5, 8, 9}, {1, 3, 4, 5, 7, 9}, {2, 3, 6, 7, 8},
           {1, 2, 3, 4, 5, 6}],
          [{1, 2, 3, 9}, {1, 2, 4, 5, 7, 8}, {1, 2, 3, 4, 5, 6, 7, 9}, {2, 3, 5, 6, 7, 9},
           {3, 4, 5}, {1, 2, 4, 6, 7, 8}, {1, 3, 4, 5, 6, 7, 8, 9}, {1, 2, 3, 4, 5, 9},
           {2, 4, 7, 8}],
          [{1, 2, 4, 7}, {2, 3, 4, 6, 8}, {1, 2, 3, 4, 5, 7, 8, 9}, {1, 2, 3, 5, 6, 9},
           {1, 4, 5, 7, 9}, {2, 4, 5, 7, 8, 9}, {1, 2, 3, 4, 5, 7, 8, 9}, {2, 3, 5, 6, 7},
           {1, 3, 4, 6}])"
proof -
  have shape: "grid9 example_puzzle"
    by code_simp
  have rows: "map (\<lambda>r. {1..9} - digits_present example_puzzle (row_cells r)) [0..<9] =
      [{1, 2, 4, 6, 8, 9}, {2, 3, 4, 7, 8}, {1, 2, 3, 4, 5, 7}, {1, 2, 4, 5, 7, 9},
       {2, 5, 6, 7, 9}, {1, 3, 4, 5, 8, 9}, {1, 3, 4, 5, 7, 9}, {2, 3, 6, 7, 8},
       {1, 2, 3, 4, 5, 6}]"
    by code_simp
  have cols: "map (\<lambda>c. {1..9} - digits_present example_puzzle (col_cells c)) [0..<9] =
      [{1, 2, 3, 9}, {1, 2, 4, 5, 7, 8}, {1, 2, 3, 4, 5, 6, 7, 9}, {2, 3, 5, 6, 7, 9},
       {3, 4, 5}, {1, 2, 4, 6, 7, 8}, {1, 3, 4, 5, 6, 7, 8, 9}, {1, 2, 3, 4, 5, 9},
       {2, 4, 7, 8}]"
    by code_simp
  have boxes: "map (\<lambda>b. {1..9} - digits_present example_puzzle (box_cells b)) [0..<9] =
      [{1, 2, 4, 7}, {2, 3, 4, 6, 8}, {1, 2, 3, 4, 5, 7, 8, 9}, {1, 2, 3, 5, 6, 9},
       {1, 4, 5, 7, 9}, {2, 4, 5, 7, 8, 9}, {1, 2, 3, 4, 5, 7, 8, 9}, {2, 3, 5, 6, 7},
       {1, 3, 4, 6}]"
    by code_simp
  show ?thesis
    using get_possible_numbers_correct[OF shape] by (simp only: rows cols boxes)
qed

lemma has_duplicates_iff: "has_duplicates xs \<longleftrightarrow> \<not> distinct xs"
  using card_distinct[of xs] distinct_card[of xs] by (auto simp: has_duplicates_def)

lemma rows_loop_correct:
  assumes "grid9 g"
  shows "list_all (\<lambda>r. r < 9) rs \<Longrightarrow>
     rows_loop g rs = Inr (list_all (\<lambda>r. distinct (nonzero (values_at g (row_cells r)))) rs)"
proof (induction rs)
  case Nil
  show ?case by simp
next
  case (Cons r rs)
  then have r: "r < 9" by simp
  with assms have "r < length g" by (simp add: grid9_iff)
  with Cons show ?case
    by (simp add: values_at_row[OF assms r] has_duplicates_iff nonzero_def)
qed

lemma cols_loop_correct:
  assumes "grid9 g"
  shows "list_all (\<lambda>c. c < 9) cs \<Longrightarrow>
     cols_loop g cs = Inr (list_all (\<lambda>c. distinct (nonzero (values_at g (col_cells c)))) cs)"
proof (induction cs)
  case Nil
  show ?case by simp
next
  case (Cons c cs)
  then have c: "c < 9" by simp
  with assms have "list_all (\<lambda>i. i < length g \<and> c < length (g ! i)) [0..<9]"
    by (simp add: grid9_iff list_all_iff)
  with Cons show ?case
    by (simp add: values_at_col has_duplicates_iff nonzero_def del: upt_Suc)
qed

lemma boxes_loop_correct:
  assumes "grid9 g"
  shows "list_all (\<lambda>(br, bc). br < 3 \<and> bc < 3) bs \<Longrightarrow>
     boxes_loop g bs =
       Inr (list_all (\<lambda>(br, bc). distinct (nonzero (values_at g (box_cells (br * 3 + bc))))) bs)"
proof (induction bs)
  case Nil
  show ?case by simp
next
  case (Cons b bs)
  obtain br bc where b: "b = (br, bc)" by (cases b)
  with Cons have lt: "br < 3" "bc < 3" by simp_all
  have "br * 3 + i < length g \<and> bc * 3 + j < length (g ! (br * 3 + i))" if "i < 3" "j < 3" for i j
  proof -
    from that lt have "br * 3 + i < 9" "bc * 3 + j < 9" by auto
    with assms show ?thesis by (simp add: grid9_iff)
  qed
  then have "list_all (\<lambda>(i, j). br * 3 + i < length g \<and> bc * 3 + j < length (g ! (br * 3 + i)))
      (product_range 3)"
    by (auto simp: list_all_iff product_range_def)
  with Cons b show ?case
    by (simp add: values_at_box[OF lt] has_duplicates_iff nonzero_def)
qed

lemma is_valid_initial_sudoku_grid9:
  assumes "grid9 g"
  shows "is_valid_initial_sudoku g = Inr (no_duplicate_digits g)"
proof -
  have r: "rows_loop g [0..<9] = Inr (list_all (\<lambda>r. distinct (nonzero (values_at g (row_cells r)))) [0..<9])"
    by (rule rows_loop_correct[OF assms]) (simp add: list_all_iff)
  have c: "cols_loop g [0..<9] = Inr (list_all (\<lambda>c. distinct (nonzero (values_at g (col_cells c)))) [0..<9])"
    by (rule cols_loop_correct[OF assms]) (simp add: list_all_iff)
  have "list_all (\<lambda>(br, bc). br < 3 \<and> bc < 3) (product_range 3)"
    by (auto simp: list_all_iff product_range_def)
  from boxes_loop_correct[OF assms this]
  have b: "boxes_loop g (product_range 3) = Inr (list_all (\<lambda>b. distinct (nonzero (values_at g (box_cells b)))) [0..<9])"
    unfolding product_range_3 by (simp add: list_all_iff del: upt_Suc)
  show ?thesis
    by (auto simp: is_valid_initial_sudoku_def r c b no_duplicate_digits_def units_def list_all_iff
        simp del: upt_Suc)
qed

text \<open>
  Claim C8. For every 9 by 9 grid, \<^verbatim>\<open>is_valid_initial_sudoku\<close> returns \<^verbatim>\<open>True\<close> if and only if
  in every row, every column and every box the non-zero values are pairwise distinct.
  Zeros are filtered out before the comparison and never count as duplicates. The
  function assigns to nothing but its own local variables.
\<close>

theorem is_valid_initial_sudoku_correct:
  assumes "grid9 g"
  shows "is_valid_initial_sudoku g = Inr (no_duplicate_digits g)"
  using assms by (rule is_valid_initial_sudoku_grid9)

theorem is_valid_initial_sudoku_witness:
  "is_valid_initial_sudoku example_puzzle = Inr True \<and>
   is_valid_initial_sudoku example_duplicate = Inr False"
proof -
  have a: "grid9 example_puzzle" "no_duplicate_digits example_puzzle"
    by code_simp+
  have b: "grid9 example_duplicate" "\<not> no_duplicate_digits example_duplicate"
    by code_simp+
  show ?thesis
    using is_valid_initial_sudoku_correct[OF a(1)] is_valid_initial_sudoku_correct[OF b(1)] a(2) b(2)
    by simp
qed

section \<open>Place and Unplace\<close>

text \<open>
  Claim C9 does not hold for every state and digit: \<^verbatim>\<open>remove\<close> raises \<^verbatim>\<open>KeyError\<close> when the
  digit is absent from one of the three sets, and then there is no state to undo. In
  \<open>example_state\<close> the digit 5 stands in row 0, so it is absent from \<^verbatim>\<open>rows_possible[0]\<close>.
\<close>

theorem place_unplace_counterexample:
  "place example_state 0 1 0 5 = Inl KeyError"
  by (simp add: place_def remove_at_def example_state_def)

text \<open>
  Claim C9, amended. For a state whose three lists have the entries \<open>row\<close>, \<open>col\<close> and
  \<open>box_index\<close>, and a digit that is a member of all three sets, the three \<^verbatim>\<open>remove\<close>
  statements succeed and the three \<^verbatim>\<open>add\<close> statements after them give back the state
  they started from.
\<close>

theorem place_unplace_inverse:
  assumes "row < length (rows_possible st)" "col < length (cols_possible st)"
    and "box_index < length (boxes_possible st)"
    and "num \<in> rows_possible st ! row" "num \<in> cols_possible st ! col"
    and "num \<in> boxes_possible st ! box_index"
  shows "\<exists>st1. place st row col box_index num = Inr st1
           \<and> unplace st1 row col box_index num = Inr st"
  using assms by (simp add: place_Inr unplace_Inr insert_absorb)

theorem place_unplace_inverse_witness:
  "\<exists>st1. place example_state 0 1 0 7 = Inr st1 \<and> unplace st1 0 1 0 7 = Inr example_state"
proof -
  have "(7::int) \<in> all_numbers - {5}" "(7::int) \<in> all_numbers"
    by (simp_all add: all_numbers_def)
  then show ?thesis
    using place_unplace_inverse[of 0 example_state 1 0 7]
    by (simp add: example_state_def)
qed

section \<open>Properties of the search from any state\<close>

text \<open>
  What follows holds for every state and every order of iteration, with no assumption
  on the grid or on the three lists of sets.
\<close>

lemma cleared_zero: "grid st ! row ! col = 0 \<Longrightarrow> cleared st row col = st"
proof -
  assume "grid st ! row ! col = 0"
  then have "(grid st ! row)[col := 0] = grid st ! row"
    using list_update_id[of "grid st ! row" col] by simp
  then show ?thesis by (simp add: cleared_def)
qed

lemma set_iteration_order: "set (iteration_order pri g s) \<subseteq> s"
proof (cases "finite s")
  case True
  then show ?thesis by (simp add: iteration_order_def)
next
  case False
  then show ?thesis by (simp add: iteration_order_def)
qed

lemma place_KeyError:
  "place st row col b num = Inl KeyError \<Longrightarrow>
     num \<notin> rows_possible st ! row \<inter> cols_possible st ! col \<inter> boxes_possible st ! b"
  by (auto simp: place_def remove_at_def split: sum.splits if_splits)

lemma place_grid: "place st row col b num = Inr st1 \<Longrightarrow> grid st1 = grid st"
  by (simp add: place_Inr)

lemma set_cell_not_KeyError: "set_cell g row col v \<noteq> Inl KeyError"
  by (simp add: set_cell_def)

lemma unplace_not_KeyError: "unplace st row col b v \<noteq> Inl KeyError"
  by (simp add: unplace_def add_at_def split: sum.splits)

lemma first_empty_not_KeyError: "first_empty g cells \<noteq> Inl KeyError"
  by (induction g cells rule: first_empty.induct) auto

lemma no_KeyError:
  "backtrack pri st \<noteq> Inl KeyError"
  "grid st ! row ! col = 0 \<Longrightarrow>
     set cands \<subseteq> rows_possible st ! row \<inter> cols_possible st ! col \<inter> boxes_possible st ! b \<Longrightarrow>
     try_candidates pri st row col b cands \<noteq> Inl KeyError"
proof (induction pri st and pri st row col b cands rule: backtrack_try_candidates.induct)
  case (1 pri st)
  show ?case
  proof (cases "first_empty (grid st) (product_range 9)")
    case (Inl e)
    with first_empty_not_KeyError[of "grid st" "product_range 9"] show ?thesis
      by (simp add: backtrack.simps[of pri st])
  next
    case (Inr found)
    show ?thesis
    proof (cases found)
      case None
      with Inr show ?thesis by (simp add: backtrack.simps[of pri st])
    next
      case (Some cell)
      obtain row col where cell: "cell = (row, col)" by (cases cell)
      from first_empty_Some[OF Inr[unfolded Some cell]]
      have zero: "grid st ! row ! col = 0" by simp
      show ?thesis
        using "1.IH"[OF Inr Some cell[symmetric] refl _ refl _ zero] Inr Some cell
          set_iteration_order
        by (auto simp: Let_def backtrack.simps[of pri st])
    qed
  qed
next
  case (2 pri st row col box_index)
  show ?case by simp
next
  case (3 pri st row col box_index num rest)
  note zero = "3.prems"(1)
  from "3.prems"(2) have num: "num \<in> rows_possible st ! row \<inter> cols_possible st ! col \<inter> boxes_possible st ! box_index"
    and rest: "set rest \<subseteq> rows_possible st ! row \<inter> cols_possible st ! col \<inter> boxes_possible st ! box_index"
    by simp_all
  show ?case
  proof (cases "set_cell (grid st) row col num")
    case (Inl e)
    with set_cell_not_KeyError[of "grid st" row col num] show ?thesis by simp
  next
    case g1: (Inr g1)
    show ?thesis
    proof (cases "place (st\<lparr>grid := g1\<rparr>) row col box_index num")
      case (Inl e)
      with place_KeyError[of "st\<lparr>grid := g1\<rparr>" row col box_index num] num g1 show ?thesis
        by auto
    next
      case st1: (Inr st1)
      show ?thesis
      proof (cases "backtrack pri st1")
        case (Inl e)
        with "3.IH"(1)[OF g1 st1] g1 st1 show ?thesis by simp
      next
        case (Inr res)
        obtain solved st2 where res: "res = (solved, st2)" by (cases res)
        show ?thesis
        proof (cases solved)
          case True
          with g1 st1 Inr res show ?thesis by simp
        next
          case False
          with Inr res have bt: "backtrack pri st1 = Inr (False, st2)" by simp
          from restored(1)[OF bt] have st2: "st2 = st1" .
          show ?thesis
          proof (cases "set_cell (grid st2) row col 0")
            case (Inl e)
            with set_cell_not_KeyError[of "grid st2" row col 0] g1 st1 bt show ?thesis by simp
          next
            case g3: (Inr g3)
            show ?thesis
            proof (cases "unplace (st2\<lparr>grid := g3\<rparr>) row col box_index num")
              case (Inl e)
              with unplace_not_KeyError[of "st2\<lparr>grid := g3\<rparr>" row col box_index num] g1 st1 bt g3
              show ?thesis by simp
            next
              case st3: (Inr st3)
              have "st3 = cleared st row col"
                using round_trip[OF g1 st1 g3[unfolded st2] st3[unfolded st2]] .
              with cleared_zero[OF zero] have same: "st3 = st" by simp
              have "try_candidates pri st3 row col box_index rest \<noteq> Inl KeyError"
                using "3.IH"(2)[OF g1 st1 Inr res[symmetric] _ g3 st3] False zero rest same
                by simp
              with g1 st1 bt g3 st3 show ?thesis by simp
            qed
          qed
        qed
      qed
    qed
  qed
qed

lemma undo_succeeds:
  assumes "set_cell (grid st) row col num = Inr g1"
    and "place (st\<lparr>grid := g1\<rparr>) row col b num = Inr st1"
  shows "\<exists>g3 st3. set_cell (grid st1) row col 0 = Inr g3
           \<and> unplace (st1\<lparr>grid := g3\<rparr>) row col b num = Inr st3
           \<and> st3 = cleared st row col"
proof -
  from assms(1) have rng: "row < length (grid st)" "col < length (grid st ! row)"
    and g1: "g1 = (grid st)[row := (grid st ! row)[col := num]]"
    by (simp_all add: set_cell_Inr)
  from assms(2) have grid1: "grid st1 = g1" by (simp add: place_Inr)
  from rng have "row < length g1" "col < length (g1 ! row)" by (simp_all add: g1)
  then obtain g3 where g3: "set_cell (grid st1) row col 0 = Inr g3"
    by (simp add: set_cell_def grid1)
  from assms(2) obtain st3 where st3: "unplace (st1\<lparr>grid := g3\<rparr>) row col b num = Inr st3"
    by (auto simp: place_Inr unplace_Inr)
  from round_trip[OF assms g3 st3] g3 st3 show ?thesis by blast
qed

text \<open>
  When the cell is empty, the state after the four undoing statements is the state
  before the digit was written, and the loop goes on from there.
\<close>

lemma try_candidates_Cons:
  assumes zero: "grid st ! row ! col = 0"
  shows "try_candidates pri st row col b (num # rest) =
     (case set_cell (grid st) row col num of
        Inl e \<Rightarrow> Inl e
      | Inr g1 \<Rightarrow>
     (case place (st\<lparr>grid := g1\<rparr>) row col b num of
        Inl e \<Rightarrow> Inl e
      | Inr st1 \<Rightarrow>
     (case backtrack pri st1 of
        Inl e \<Rightarrow> Inl e
      | Inr (solved, st2) \<Rightarrow>
          if solved then Inr (True, st2) else try_candidates pri st row col b rest)))"
proof (cases "set_cell (grid st) row col num")
  case (Inl e)
  then show ?thesis by simp
next
  case g1: (Inr g1)
  show ?thesis
  proof (cases "place (st\<lparr>grid := g1\<rparr>) row col b num")
    case (Inl e)
    with g1 show ?thesis by simp
  next
    case st1: (Inr st1)
    show ?thesis
    proof (cases "backtrack pri st1")
      case (Inl e)
      with g1 st1 show ?thesis by simp
    next
      case (Inr res)
      obtain solved st2 where res: "res = (solved, st2)" by (cases res)
      show ?thesis
      proof (cases solved)
        case True
        with g1 st1 Inr res show ?thesis by simp
      next
        case False
        with Inr res have bt: "backtrack pri st1 = Inr (False, st2)" by simp
        from restored(1)[OF bt] have st2: "st2 = st1" .
        from undo_succeeds[OF g1 st1] cleared_zero[OF zero]
        obtain g3 where "set_cell (grid st1) row col 0 = Inr g3"
          "unplace (st1\<lparr>grid := g3\<rparr>) row col b num = Inr st"
          by auto
        with g1 st1 bt st2 show ?thesis by simp
      qed
    qed
  qed
qed

text \<open>
  The induction rule of the search, with the hypothesis for the rest of the loop stated
  for the state the loop started in.
\<close>

lemma search_induct [case_names backtrack nil cons]:
  fixes P :: "(sudoku_grid \<Rightarrow> int \<Rightarrow> nat) \<Rightarrow> state \<Rightarrow> bool"
    and Q :: "(sudoku_grid \<Rightarrow> int \<Rightarrow> nat) \<Rightarrow> state \<Rightarrow> nat \<Rightarrow> nat \<Rightarrow> nat \<Rightarrow> int list \<Rightarrow> bool"
  assumes B: "\<And>pri st.
      (\<And>row col. first_empty (grid st) (product_range 9) = Inr (Some (row, col)) \<Longrightarrow>
         row < length (rows_possible st) \<Longrightarrow> col < length (cols_possible st) \<Longrightarrow>
         row div 3 * 3 + col div 3 < length (boxes_possible st) \<Longrightarrow>
         rows_possible st ! row \<inter> cols_possible st ! col
           \<inter> boxes_possible st ! (row div 3 * 3 + col div 3) \<noteq> {} \<Longrightarrow>
         Q pri st row col (row div 3 * 3 + col div 3)
           (iteration_order pri (grid st)
              (rows_possible st ! row \<inter> cols_possible st ! col
                 \<inter> boxes_possible st ! (row div 3 * 3 + col div 3)))) \<Longrightarrow>
      P pri st"
    and N: "\<And>pri st row col b. Q pri st row col b []"
    and C: "\<And>pri st row col b num rest.
      (\<And>g1 st1. set_cell (grid st) row col num = Inr g1 \<Longrightarrow>
         place (st\<lparr>grid := g1\<rparr>) row col b num = Inr st1 \<Longrightarrow> P pri st1) \<Longrightarrow>
      (\<And>g1 st1. grid st ! row ! col = 0 \<Longrightarrow> set_cell (grid st) row col num = Inr g1 \<Longrightarrow>
         place (st\<lparr>grid := g1\<rparr>) row col b num = Inr st1 \<Longrightarrow>
         backtrack pri st1 = Inr (False, st1) \<Longrightarrow> Q pri st row col b rest) \<Longrightarrow>
      Q pri st row col b (num # rest)"
  shows "P pri st" and "Q pri st row col b cands"
proof (induction pri st and pri st row col b cands rule: backtrack_try_candidates.induct)
  case (1 pri st)
  show ?case
  proof (rule B)
    fix row col
    assume fe: "first_empty (grid st) (product_range 9) = Inr (Some (row, col))"
      and rng: "row < length (rows_possible st)" "col < length (cols_possible st)"
        "row div 3 * 3 + col div 3 < length (boxes_possible st)"
      and ne: "rows_possible st ! row \<inter> cols_possible st ! col
           \<inter> boxes_possible st ! (row div 3 * 3 + col div 3) \<noteq> {}"
    show "Q pri st row col (row div 3 * 3 + col div 3)
           (iteration_order pri (grid st)
              (rows_possible st ! row \<inter> cols_possible st ! col
                 \<inter> boxes_possible st ! (row div 3 * 3 + col div 3)))"
      using "1.IH"[OF fe refl refl refl _ refl ne] rng by simp
  qed
next
  case (2 pri st row col box_index)
  show ?case by (rule N)
next
  case (3 pri st row col box_index num rest)
  show ?case
  proof (rule C)
    fix g1 st1
    assume g1: "set_cell (grid st) row col num = Inr g1"
      and st1: "place (st\<lparr>grid := g1\<rparr>) row col box_index num = Inr st1"
    show "P pri st1" using "3.IH"(1)[OF g1 st1] .
  next
    fix g1 st1
    assume zero: "grid st ! row ! col = 0"
      and g1: "set_cell (grid st) row col num = Inr g1"
      and st1: "place (st\<lparr>grid := g1\<rparr>) row col box_index num = Inr st1"
      and bt: "backtrack pri st1 = Inr (False, st1)"
    from undo_succeeds[OF g1 st1] cleared_zero[OF zero]
    obtain g3 where g3: "set_cell (grid st1) row col 0 = Inr g3"
      and st3: "unplace (st1\<lparr>grid := g3\<rparr>) row col box_index num = Inr st"
      by auto
    show "Q pri st row col box_index rest"
      using "3.IH"(2)[OF g1 st1 bt refl _ g3 st3] by simp
  qed
qed

lemma keeps_refl: "keeps g g"
  by (simp add: keeps_def)

lemma keeps_trans: "keeps g g' \<Longrightarrow> keeps g' g'' \<Longrightarrow> keeps g g''"
  by (auto simp: keeps_def)

lemma keeps_set_cell:
  assumes "set_cell g row col v = Inr g1" "g ! row ! col = 0"
  shows "keeps g g1"
proof -
  from assms(1) have rng: "row < length g" "col < length (g ! row)"
    and g1: "g1 = g[row := (g ! row)[col := v]]"
    by (simp_all add: set_cell_Inr)
  have "g1 ! r ! c = g ! r ! c" if "g ! r ! c \<noteq> 0" for r c
  proof (cases "r = row")
    case True
    with that assms(2) have "c \<noteq> col" by auto
    with True rng show ?thesis by (simp add: g1)
  next
    case False
    then show ?thesis by (simp add: g1)
  qed
  moreover have "length (g1 ! r) = length (g ! r)" for r
    using rng by (cases "r = row") (simp_all add: g1)
  ultimately show ?thesis by (simp add: keeps_def g1)
qed

lemma frame:
  "\<forall>ok s. backtrack pri st = Inr (ok, s) \<longrightarrow> keeps (grid st) (grid s)"
  "grid st ! row ! col = 0 \<Longrightarrow>
     \<forall>ok s. try_candidates pri st row col b cands = Inr (ok, s) \<longrightarrow> keeps (grid st) (grid s)"
proof (induction pri st and pri st row col b cands rule: search_induct)
  case (backtrack pri st)
  show ?case
  proof (intro allI impI)
    fix ok s
    assume run: "backtrack pri st = Inr (ok, s)"
    show "keeps (grid st) (grid s)"
    proof (cases "first_empty (grid st) (product_range 9)")
      case (Inl e)
      with run show ?thesis by (simp add: backtrack.simps[of pri st])
    next
      case (Inr found)
      show ?thesis
      proof (cases found)
        case None
        with Inr run show ?thesis by (simp add: keeps_refl backtrack.simps[of pri st])
      next
        case (Some cell)
        obtain row col where cell: "cell = (row, col)" by (cases cell)
        note fe = Inr[unfolded Some cell]
        show ?thesis
          using run backtrack.IH[OF fe] fe first_empty_Some[OF fe]
          by (auto simp: Let_def keeps_refl backtrack.simps[of pri st] split: if_splits)
      qed
    qed
  qed
next
  case (nil pri st row col b)
  show ?case by (simp add: keeps_refl)
next
  case (cons pri st row col b num rest)
  show ?case
  proof (intro allI impI)
    fix ok s
    assume run: "try_candidates pri st row col b (num # rest) = Inr (ok, s)"
    from run obtain g1 st1 solved st2 where g1: "set_cell (grid st) row col num = Inr g1"
      and st1: "place (st\<lparr>grid := g1\<rparr>) row col b num = Inr st1"
      and bt: "backtrack pri st1 = Inr (solved, st2)"
      and fin: "if solved then ok \<and> s = st2 else try_candidates pri st row col b rest = Inr (ok, s)"
      unfolding try_candidates_Cons[OF cons.prems]
      by (auto split: sum.splits prod.splits if_splits)
    have k1: "keeps (grid st) (grid st1)"
      using keeps_set_cell[OF g1 cons.prems] place_grid[OF st1] by simp
    show "keeps (grid st) (grid s)"
    proof (cases solved)
      case True
      with fin have "s = st2" by simp
      with cons.IH(1)[OF g1 st1] bt have "keeps (grid st1) (grid s)" by simp
      with k1 show ?thesis by (rule keeps_trans)
    next
      case False
      with bt restored(1) have "backtrack pri st1 = Inr (False, st1)" by auto
      from cons.IH(2)[OF cons.prems g1 st1 this cons.prems] fin False show ?thesis by simp
    qed
  qed
qed

lemma run_unsolvable:
  "solve_sudoku ascending example_unsolvable = Inr (False, example_unsolvable)"
  by code_simp

lemma run_nearly:
  "solve_sudoku ascending example_nearly = Inr (True, example_solution)"
  by code_simp

lemma solve_sudoku_Inr:
  "solve_sudoku pri g = Inr (ok, g') \<longleftrightarrow>
     (\<exists>rp cp bp st. get_possible_numbers g = Inr (rp, cp, bp)
        \<and> backtrack pri \<lparr>grid = g, rows_possible = rp, cols_possible = cp, boxes_possible = bp\<rparr>
            = Inr (ok, st)
        \<and> g' = grid st)"
  by (auto simp: solve_sudoku_def split: sum.splits prod.splits)

text \<open>
  Claim C3. For every grid, if \<^verbatim>\<open>solve_sudoku\<close> returns \<^verbatim>\<open>False\<close>, the grid after the call
  is the grid before the call, cell for cell.
\<close>

theorem solve_sudoku_restores:
  assumes "solve_sudoku pri g = Inr (False, g')"
  shows "g' = g"
proof -
  from assms obtain rp cp bp st
    where "backtrack pri \<lparr>grid = g, rows_possible = rp, cols_possible = cp, boxes_possible = bp\<rparr>
            = Inr (False, st)" and "g' = grid st"
    unfolding solve_sudoku_Inr by blast
  with restored(1) show ?thesis by fastforce
qed

theorem solve_sudoku_restores_witness:
  "solve_sudoku ascending example_unsolvable = Inr (False, example_unsolvable)"
  using solve_sudoku_restores[OF run_unsolvable] run_unsolvable by simp

text \<open>
  Claim C4. For every grid and every cell that holds a non-zero value before the call,
  the cell holds the same value when \<^verbatim>\<open>solve_sudoku\<close> returns, with \<^verbatim>\<open>True\<close> or with
  \<^verbatim>\<open>False\<close>: only cells that held 0 are written to. The shape of the grid stays as it
  was.
\<close>

theorem solve_sudoku_keeps_given:
  assumes "solve_sudoku pri g = Inr (ok, g')"
    and "r < length g" "c < length (g ! r)" "g ! r ! c \<noteq> 0"
  shows "g' ! r ! c = g ! r ! c \<and> length g' = length g \<and> length (g' ! r) = length (g ! r)"
proof -
  from assms(1) obtain rp cp bp st
    where "backtrack pri \<lparr>grid = g, rows_possible = rp, cols_possible = cp, boxes_possible = bp\<rparr>
            = Inr (ok, st)" and "g' = grid st"
    unfolding solve_sudoku_Inr by blast
  with frame(1) have "keeps g g'" by fastforce
  with assms(4) show ?thesis by (simp add: keeps_def)
qed

theorem solve_sudoku_keeps_given_witness:
  "solve_sudoku ascending example_nearly = Inr (True, example_solution)
   \<and> example_nearly ! 0 ! 1 = 3 \<and> example_solution ! 0 ! 1 = 3"
proof -
  have a: "0 < length example_nearly" "1 < length (example_nearly ! 0)"
    "example_nearly ! 0 ! 1 \<noteq> 0" "example_nearly ! 0 ! 1 = 3"
    by (simp_all add: example_nearly_def)
  from solve_sudoku_keeps_given[OF run_nearly a(1-3)] a(4) run_nearly
  show ?thesis by simp
qed

text \<open>
  Claim C10. No \<^verbatim>\<open>remove\<close> in \<^verbatim>\<open>backtrack\<close> raises \<^verbatim>\<open>KeyError\<close>, whatever the state the
  search starts from and whatever the order in which the candidates are visited: every
  digit that is tried comes from the intersection of the three sets, and the state is
  put back before the next one is tried.
\<close>

theorem remove_never_fails:
  "backtrack pri st \<noteq> Inl KeyError \<and> solve_sudoku pri g \<noteq> Inl KeyError"
proof
  show "backtrack pri st \<noteq> Inl KeyError" by (rule no_KeyError(1))
next
  have "get_possible_numbers g \<noteq> Inl KeyError"
    by (simp add: get_possible_numbers_def)
  moreover have "backtrack pri s \<noteq> Inl KeyError" for s by (rule no_KeyError(1))
  ultimately show "solve_sudoku pri g \<noteq> Inl KeyError"
    by (auto simp: solve_sudoku_def split: sum.splits prod.splits)
qed

theorem remove_never_fails_witness:
  "backtrack ascending example_state \<noteq> Inl KeyError
   \<and> solve_sudoku ascending example_nearly \<noteq> Inl KeyError"
  using remove_never_fails[of ascending example_state example_nearly] .

section \<open>The invariant of the search\<close>

lemma in_digits_present:
  "v \<in> digits_present g cells \<longleftrightarrow> v \<noteq> 0 \<and> (\<exists>(r, c) \<in> set cells. g ! r ! c = v)"
  by (auto simp: digits_present_def nonzero_def values_at_def)

lemma nth_set_cell:
  "row < length g \<Longrightarrow> col < length (g ! row) \<Longrightarrow>
     g[row := (g ! row)[col := v]] ! r ! c = (if r = row \<and> c = col then v else g ! r ! c)"
  by (cases "r = row"; cases "c = col") simp_all

lemma digits_present_update:
  assumes "row < length g" "col < length (g ! row)" "g ! row ! col = 0" "v \<noteq> 0"
  shows "digits_present (g[row := (g ! row)[col := v]]) cells =
     (if (row, col) \<in> set cells then insert v (digits_present g cells)
      else digits_present g cells)"
proof -
  let ?g1 = "g[row := (g ! row)[col := v]]"
  have nth: "?g1 ! r ! c = (if r = row \<and> c = col then v else g ! r ! c)" for r c
    using assms(1,2) by (rule nth_set_cell)
  show ?thesis
  proof (rule set_eqI)
    fix d
    show "d \<in> digits_present ?g1 cells \<longleftrightarrow>
        d \<in> (if (row, col) \<in> set cells then insert v (digits_present g cells)
              else digits_present g cells)"
      using assms(3,4) by (auto simp: in_digits_present nth split: if_splits)
  qed
qed

lemma grid9_update: "grid9 g \<Longrightarrow> grid9 (g[row := (g ! row)[col := v]])"
  by (cases "row < length g") (auto simp: grid9_iff nth_list_update list_update_beyond)

lemma box_of_less: "r < 9 \<Longrightarrow> c < 9 \<Longrightarrow> box_of r c < 9"
proof -
  assume "r < 9" "c < 9"
  then have "r div 3 < 3" "c div 3 < 3" by auto
  then show ?thesis unfolding box_of_def by linarith
qed

lemma consistent_iff:
  "consistent st \<longleftrightarrow>
     grid9 (grid st) \<and>
     rows_possible st = map (\<lambda>r. {1..9} - digits_present (grid st) (row_cells r)) [0..<9] \<and>
     cols_possible st = map (\<lambda>c. {1..9} - digits_present (grid st) (col_cells c)) [0..<9] \<and>
     boxes_possible st = map (\<lambda>b. {1..9} - digits_present (grid st) (box_cells b)) [0..<9]"
  by (auto simp: consistent_def get_possible_numbers_def grid9_subscriptable possible_rows
      possible_cols possible_boxes simp del: upt_Suc)

lemma consistent_nth:
  assumes "consistent st" "r < 9" "c < 9"
  shows "rows_possible st ! r = {1..9} - digits_present (grid st) (row_cells r)"
    "cols_possible st ! c = {1..9} - digits_present (grid st) (col_cells c)"
    "boxes_possible st ! (box_of r c) = {1..9} - digits_present (grid st) (box_cells (box_of r c))"
  using assms box_of_less[OF assms(2,3)] by (simp_all add: consistent_iff del: upt_Suc)

lemma consistent_lengths:
  assumes "consistent st"
  shows "length (rows_possible st) = 9" "length (cols_possible st) = 9"
    "length (boxes_possible st) = 9"
  using assms by (simp_all add: consistent_iff)

lemma consistent_finite:
  assumes "consistent st" "row < 9"
  shows "finite (rows_possible st ! row \<inter> X)"
proof -
  from assms have "rows_possible st ! row \<subseteq> {1..9}"
    by (auto simp: consistent_iff simp del: upt_Suc)
  then have "finite (rows_possible st ! row)" by (rule finite_subset) simp
  then show ?thesis by simp
qed

lemma possible_update:
  assumes sets: "sets = map (\<lambda>i. {1..9} - digits_present g (cells i)) [0..<9]"
    and k: "k < 9"
    and only: "\<And>i. i < 9 \<Longrightarrow> (row, col) \<in> set (cells i) \<longleftrightarrow> i = k"
    and rng: "row < length g" "col < length (g ! row)"
    and zero: "g ! row ! col = 0" and v: "v \<noteq> 0"
  shows "sets[k := sets ! k - {v}] =
     map (\<lambda>i. {1..9} - digits_present (g[row := (g ! row)[col := v]]) (cells i)) [0..<9]"
proof (rule nth_equalityI)
  show "length (sets[k := sets ! k - {v}]) =
      length (map (\<lambda>i. {1..9} - digits_present (g[row := (g ! row)[col := v]]) (cells i)) [0..<9])"
    by (simp add: sets)
next
  fix i assume "i < length (sets[k := sets ! k - {v}])"
  then have i: "i < 9" by (simp add: sets)
  have len: "length sets = 9" by (simp add: sets)
  have nth: "sets ! j = {1..9} - digits_present g (cells j)" if "j < 9" for j
    using that by (simp add: sets del: upt_Suc)
  show "sets[k := sets ! k - {v}] ! i =
      map (\<lambda>i. {1..9} - digits_present (g[row := (g ! row)[col := v]]) (cells i)) [0..<9] ! i"
    using i k only[OF i] nth[OF i] nth[OF k] len
    by (auto simp: nth_list_update digits_present_update[OF rng zero v] simp del: upt_Suc)
qed

lemma place_consistent:
  assumes c: "consistent st" and rc: "row < 9" "col < 9" and zero: "grid st ! row ! col = 0"
    and num: "num \<in> rows_possible st ! row \<inter> cols_possible st ! col
               \<inter> boxes_possible st ! (box_of row col)"
  shows "\<exists>st1. set_cell (grid st) row col num = Inr ((grid st)[row := (grid st ! row)[col := num]])
      \<and> place (st\<lparr>grid := (grid st)[row := (grid st ! row)[col := num]]\<rparr>) row col (box_of row col) num
          = Inr st1
      \<and> grid st1 = (grid st)[row := (grid st ! row)[col := num]]
      \<and> consistent st1"
proof -
  let ?g = "grid st"
  let ?g1 = "?g[row := (?g ! row)[col := num]]"
  from c have g9: "grid9 ?g"
    and rows: "rows_possible st = map (\<lambda>r. {1..9} - digits_present ?g (row_cells r)) [0..<9]"
    and cols: "cols_possible st = map (\<lambda>c. {1..9} - digits_present ?g (col_cells c)) [0..<9]"
    and boxes: "boxes_possible st = map (\<lambda>b. {1..9} - digits_present ?g (box_cells b)) [0..<9]"
    by (simp_all add: consistent_iff)
  from g9 rc have rng: "row < length ?g" "col < length (?g ! row)"
    by (simp_all add: grid9_iff)
  have b: "box_of row col < 9" using rc by (rule box_of_less)
  from num rc have "num \<in> {1..9}" by (simp add: rows del: upt_Suc)
  then have nz: "num \<noteq> 0" by simp
  have lens: "row < length (rows_possible st)" "col < length (cols_possible st)"
    "box_of row col < length (boxes_possible st)"
    using rc b by (simp_all add: rows cols boxes)
  define st1 where "st1 = st\<lparr>grid := ?g1,
      rows_possible := (rows_possible st)[row := rows_possible st ! row - {num}],
      cols_possible := (cols_possible st)[col := cols_possible st ! col - {num}],
      boxes_possible := (boxes_possible st)[box_of row col := boxes_possible st ! box_of row col - {num}]\<rparr>"
  have p: "place (st\<lparr>grid := ?g1\<rparr>) row col (box_of row col) num = Inr st1"
    using lens num by (simp add: place_Inr st1_def)
  have "\<And>i. i < 9 \<Longrightarrow> (row, col) \<in> set (row_cells i) \<longleftrightarrow> i = row"
    using rc by auto
  from possible_update[OF rows rc(1) this rng zero nz]
  have r1: "rows_possible st1 = map (\<lambda>r. {1..9} - digits_present ?g1 (row_cells r)) [0..<9]"
    by (simp add: st1_def)
  have "\<And>i. i < 9 \<Longrightarrow> (row, col) \<in> set (col_cells i) \<longleftrightarrow> i = col"
    using rc by auto
  from possible_update[OF cols rc(2) this rng zero nz]
  have c1: "cols_possible st1 = map (\<lambda>c. {1..9} - digits_present ?g1 (col_cells c)) [0..<9]"
    by (simp add: st1_def)
  have "\<And>i. i < 9 \<Longrightarrow> (row, col) \<in> set (box_cells i) \<longleftrightarrow> i = box_of row col"
    using rc by auto
  from possible_update[OF boxes b this rng zero nz]
  have b1: "boxes_possible st1 = map (\<lambda>b. {1..9} - digits_present ?g1 (box_cells b)) [0..<9]"
    by (simp add: st1_def)
  have "consistent st1"
    unfolding consistent_iff using r1 c1 b1 grid9_update[OF g9]
    by (simp add: st1_def)
  moreover have "grid st1 = ?g1" by (simp add: st1_def)
  moreover have "set_cell ?g row col num = Inr ?g1" using rng by (simp add: set_cell_def)
  ultimately show ?thesis using p by blast
qed

lemma in_product_range [simp]: "(r, c) \<in> set (product_range n) \<longleftrightarrow> r < n \<and> c < n"
  by (auto simp: product_range_def)

lemma first_empty_None:
  "first_empty g cells = Inr None \<Longrightarrow> (r, c) \<in> set cells \<Longrightarrow> g ! r ! c \<noteq> 0"
  by (induction g cells rule: first_empty.induct) (auto split: if_splits)

lemma first_empty_Inr:
  "(\<And>r c. (r, c) \<in> set cells \<Longrightarrow> r < length g \<and> c < length (g ! r)) \<Longrightarrow>
     \<exists>found. first_empty g cells = Inr found"
  by (induction g cells rule: first_empty.induct) auto

lemma first_empty_grid9:
  assumes "grid9 g"
  shows "\<exists>found. first_empty g (product_range 9) = Inr found"
  using assms by (intro first_empty_Inr) (auto simp: grid9_iff)

lemma length_row_cells [simp]: "length (row_cells r) = 9"
  by (simp add: row_cells_def)

lemma length_col_cells [simp]: "length (col_cells c) = 9"
  by (simp add: col_cells_def)

lemma box_cells_enum': "b < 9 \<Longrightarrow>
    box_cells b = map (\<lambda>(i, j). (b div 3 * 3 + i, b mod 3 * 3 + j)) (product_range 3)"
  using box_cells_enum[of "b div 3" "b mod 3"] by simp

lemma length_box_cells: "b < 9 \<Longrightarrow> length (box_cells b) = 9"
  by (simp add: box_cells_enum' product_range_def)

lemma distinct_row_cells [simp]: "distinct (row_cells r)"
  by (simp add: row_cells_def distinct_map inj_on_def)

lemma distinct_col_cells [simp]: "distinct (col_cells c)"
  by (simp add: col_cells_def distinct_map inj_on_def)

lemma distinct_box_cells [simp]: "distinct (box_cells b)"
  by (simp add: box_cells_def product_range_def distinct_product)

lemma in_units:
  "u \<in> set units \<longleftrightarrow>
     (\<exists>i<9. u = row_cells i) \<or> (\<exists>i<9. u = col_cells i) \<or> (\<exists>i<9. u = box_cells i)"
  by (auto simp: units_def simp del: upt_Suc)

lemma unit_facts:
  assumes "u \<in> set units"
  shows "length u = 9" "distinct u" "\<And>r c. (r, c) \<in> set u \<Longrightarrow> r < 9 \<and> c < 9"
  using assms by (auto simp: in_units length_box_cells)

lemma unit_of_cell:
  assumes "u \<in> set units" "(row, col) \<in> set u"
  shows "u = row_cells row \<or> u = col_cells col \<or> u = box_cells (box_of row col)"
  using assms by (auto simp: in_units)

lemma cell_units:
  assumes "row < 9" "col < 9"
  shows "row_cells row \<in> set units" "col_cells col \<in> set units"
    "box_cells (box_of row col) \<in> set units"
    "(row, col) \<in> set (row_cells row)" "(row, col) \<in> set (col_cells col)"
    "(row, col) \<in> set (box_cells (box_of row col))"
  using assms box_of_less[OF assms] by (auto simp: in_units)

lemma values_at_update:
  assumes "row < length g" "col < length (g ! row)"
  shows "values_at (g[row := (g ! row)[col := v]]) cells =
     map ((\<lambda>(r, c). g ! r ! c)((row, col) := v)) cells"
  unfolding values_at_def
  by (rule map_cong) (auto simp: nth_set_cell[OF assms] split: if_splits)

lemma distinct_nonzero_update:
  "distinct cells \<Longrightarrow> distinct (nonzero (map f cells)) \<Longrightarrow> f p = 0 \<Longrightarrow>
     v \<notin> set (nonzero (map f cells)) \<Longrightarrow> distinct (nonzero (map (f(p := v)) cells))"
proof (induction cells)
  case Nil
  then show ?case by (simp add: nonzero_def)
next
  case (Cons q cells)
  have same: "map (f(p := v)) cells = map f cells" if "p \<notin> set cells"
    using that by (intro map_cong) auto
  have sub: "set (nonzero (map (f(p := v)) cells)) \<subseteq> insert v (set (nonzero (map f cells)))"
    by (auto simp: nonzero_def)
  show ?case
  proof (cases "q = p")
    case True
    with Cons.prems have "p \<notin> set cells" by simp
    from same[OF this] True
    have eq: "map (f(p := v)) (q # cells) = v # map f cells" by simp
    from Cons.prems True have "distinct (nonzero (map f cells))"
      "v \<notin> set (nonzero (map f cells))"
      by (simp_all add: nonzero_def)
    then show ?thesis unfolding eq by (auto simp: nonzero_def)
  next
    case False
    with Cons show ?thesis using sub
      by (auto simp: nonzero_def split: if_splits)
  qed
qed

lemma distinct_count_list: "distinct xs \<Longrightarrow> x \<in> set xs \<Longrightarrow> count_list xs x = 1"
  by (induction xs) auto

lemma exactly_once_iff:
  assumes "length xs = 9"
  shows "exactly_once xs \<longleftrightarrow> distinct xs \<and> set xs = {1..9}"
proof
  assume "exactly_once xs"
  then have "\<forall>d\<in>{1..9}. count_list xs d = 1"
    by (simp add: exactly_once_def list_all_iff)
  then have sub: "{1..9} \<subseteq> set xs"
    by (metis count_notin subsetI zero_neq_one)
  have "card (set xs) \<le> 9" using card_length[of xs] assms by simp
  moreover have "card {1..9::int} \<le> card (set xs)" using sub by (intro card_mono) auto
  ultimately have card: "card (set xs) = 9" by simp
  with assms have "distinct xs" by (simp add: card_distinct)
  moreover have "{1..9} = set xs" using sub card by (intro card_subset_eq) auto
  ultimately show "distinct xs \<and> set xs = {1..9}" by simp
next
  assume "distinct xs \<and> set xs = {1..9}"
  then show "exactly_once xs"
    by (auto simp: exactly_once_def list_all_iff distinct_count_list)
qed

lemma length_values_at [simp]: "length (values_at g cells) = length cells"
  by (simp add: values_at_def)

lemma solved_unit:
  assumes "solved_grid sol" "u \<in> set units"
  shows "distinct (values_at sol u)" "set (values_at sol u) = {1..9}"
proof -
  from assms have "exactly_once (values_at sol u)"
    by (simp add: solved_grid_def list_all_iff)
  moreover have "length (values_at sol u) = 9" using unit_facts(1)[OF assms(2)] by simp
  ultimately show "distinct (values_at sol u)" "set (values_at sol u) = {1..9}"
    by (simp_all add: exactly_once_iff)
qed

lemma solved_peers:
  assumes "solved_grid sol" "u \<in> set units" "(r, c) \<in> set u" "(r', c') \<in> set u"
    and "(r, c) \<noteq> (r', c')"
  shows "sol ! r ! c \<noteq> sol ! r' ! c'"
proof -
  from solved_unit(1)[OF assms(1,2)]
  have "inj_on (\<lambda>(r, c). sol ! r ! c) (set u)"
    by (simp add: values_at_def distinct_map)
  from inj_onD[OF this _ assms(3,4)] assms(5) show ?thesis by auto
qed

lemma completes_cell:
  assumes "completes g sol" "r < 9" "c < 9"
  shows "g ! r ! c \<noteq> 0 \<Longrightarrow> sol ! r ! c = g ! r ! c"
    and "g ! r ! c = 0 \<Longrightarrow> sol ! r ! c \<in> {1..9}"
  using assms by (auto simp: completes_def list_all_iff split: if_splits)

lemma completion_not_present:
  assumes comp: "completes g sol" and sv: "solved_grid sol"
    and u: "u \<in> set units" "(row, col) \<in> set u" and zero: "g ! row ! col = 0"
  shows "sol ! row ! col \<notin> digits_present g u"
proof
  assume "sol ! row ! col \<in> digits_present g u"
  then obtain r c where rc: "(r, c) \<in> set u" "g ! r ! c = sol ! row ! col" "g ! r ! c \<noteq> 0"
    by (auto simp: in_digits_present)
  from unit_facts(3)[OF u(1) rc(1)] have "r < 9" "c < 9" by simp_all
  from completes_cell(1)[OF comp this rc(3)] rc(2) have "sol ! r ! c = sol ! row ! col" by simp
  moreover from rc(3) zero have "(r, c) \<noteq> (row, col)" by auto
  ultimately show False using solved_peers[OF sv u(1) rc(1) u(2)] by simp
qed

lemma completion_candidate:
  assumes c: "consistent st" and rc: "row < 9" "col < 9" and zero: "grid st ! row ! col = 0"
    and comp: "completes (grid st) sol" and sv: "solved_grid sol"
  shows "sol ! row ! col \<in> rows_possible st ! row \<inter> cols_possible st ! col
           \<inter> boxes_possible st ! (box_of row col)"
    and "completes ((grid st)[row := (grid st ! row)[col := sol ! row ! col]]) sol"
proof -
  let ?g = "grid st"
  let ?v = "sol ! row ! col"
  from c have g9: "grid9 ?g"
    and rows: "rows_possible st = map (\<lambda>r. {1..9} - digits_present ?g (row_cells r)) [0..<9]"
    and cols: "cols_possible st = map (\<lambda>c. {1..9} - digits_present ?g (col_cells c)) [0..<9]"
    and boxes: "boxes_possible st = map (\<lambda>b. {1..9} - digits_present ?g (box_cells b)) [0..<9]"
    by (simp_all add: consistent_iff)
  from g9 rc have rng: "row < length ?g" "col < length (?g ! row)"
    by (simp_all add: grid9_iff)
  have v: "?v \<in> {1..9}" using completes_cell(2)[OF comp rc zero] .
  note cu = cell_units[OF rc]
  have "?v \<notin> digits_present ?g (row_cells row)" "?v \<notin> digits_present ?g (col_cells col)"
    "?v \<notin> digits_present ?g (box_cells (box_of row col))"
    using completion_not_present[OF comp sv _ _ zero] cu by blast+
  with v rc box_of_less[OF rc]
  show "?v \<in> rows_possible st ! row \<inter> cols_possible st ! col
           \<inter> boxes_possible st ! (box_of row col)"
    by (simp add: rows cols boxes del: upt_Suc)
  from comp have "grid9 sol" by (simp add: completes_def)
  moreover have "if ?g[row := (?g ! row)[col := ?v]] ! r ! c = 0
      then 1 \<le> sol ! r ! c \<and> sol ! r ! c \<le> 9
      else sol ! r ! c = ?g[row := (?g ! row)[col := ?v]] ! r ! c" if "r < 9" "c < 9" for r c
    using completes_cell[OF comp that] v
    by (auto simp: nth_set_cell[OF rng])
  ultimately show "completes (?g[row := (?g ! row)[col := ?v]]) sol"
    by (auto simp: completes_def list_all_iff)
qed

lemma place_valid:
  assumes c: "consistent st" and rc: "row < 9" "col < 9" and zero: "grid st ! row ! col = 0"
    and num: "num \<in> rows_possible st ! row \<inter> cols_possible st ! col
               \<inter> boxes_possible st ! (box_of row col)"
    and ve: "valid_entries (grid st)"
  shows "valid_entries ((grid st)[row := (grid st ! row)[col := num]])"
proof -
  let ?g = "grid st"
  let ?g1 = "?g[row := (?g ! row)[col := num]]"
  let ?f = "\<lambda>(r, c). ?g ! r ! c"
  from c have g9: "grid9 ?g"
    and rows: "rows_possible st = map (\<lambda>r. {1..9} - digits_present ?g (row_cells r)) [0..<9]"
    and cols: "cols_possible st = map (\<lambda>c. {1..9} - digits_present ?g (col_cells c)) [0..<9]"
    and boxes: "boxes_possible st = map (\<lambda>b. {1..9} - digits_present ?g (box_cells b)) [0..<9]"
    by (simp_all add: consistent_iff)
  from g9 rc have rng: "row < length ?g" "col < length (?g ! row)"
    by (simp_all add: grid9_iff)
  from num rc box_of_less[OF rc] have n19: "num \<in> {1..9}"
    and absent: "num \<notin> digits_present ?g (row_cells row)"
      "num \<notin> digits_present ?g (col_cells col)"
      "num \<notin> digits_present ?g (box_cells (box_of row col))"
    by (simp_all add: rows cols boxes del: upt_Suc)
  have "distinct (nonzero (values_at ?g1 u))" if u: "u \<in> set units" for u
  proof (cases "(row, col) \<in> set u")
    case True
    from unit_of_cell[OF u True] absent
    have "num \<notin> set (nonzero (map ?f u))"
      by (auto simp: digits_present_def values_at_def)
    moreover from ve u have "distinct (nonzero (map ?f u))"
      by (simp add: valid_entries_def no_duplicate_digits_def list_all_iff values_at_def)
    moreover have "?f (row, col) = 0" using zero by simp
    ultimately have "distinct (nonzero (map (?f((row, col) := num)) u))"
      using unit_facts(2)[OF u] by (intro distinct_nonzero_update)
    then show ?thesis by (simp add: values_at_update[OF rng])
  next
    case False
    then have eq: "map (?f((row, col) := num)) u = map ?f u"
      by (intro map_cong) auto
    have "values_at ?g1 u = values_at ?g u"
      unfolding values_at_update[OF rng] eq by (simp add: values_at_def)
    moreover from ve u have "distinct (nonzero (values_at ?g u))"
      by (simp add: valid_entries_def no_duplicate_digits_def list_all_iff)
    ultimately show ?thesis by simp
  qed
  then have "no_duplicate_digits ?g1"
    by (simp add: no_duplicate_digits_def list_all_iff)
  moreover have "entries09 ?g1"
  proof -
    have "0 \<le> v \<and> v \<le> 9" if "xs \<in> set ?g1" "v \<in> set xs" for xs v
    proof -
      from that(1) set_update_subset_insert[of ?g row "(?g ! row)[col := num]"]
      have "xs \<in> set ?g \<or> xs = (?g ! row)[col := num]" by auto
      then show ?thesis
      proof
        assume "xs \<in> set ?g"
        with ve that(2) show ?thesis
          by (auto simp: valid_entries_def entries09_def list_all_iff)
      next
        assume "xs = (?g ! row)[col := num]"
        with that(2) set_update_subset_insert[of "?g ! row" col num]
        have "v = num \<or> v \<in> set (?g ! row)" by auto
        moreover have "?g ! row \<in> set ?g" using rng by simp
        ultimately show ?thesis using ve n19
          by (auto simp: valid_entries_def entries09_def list_all_iff)
      qed
    qed
    then show ?thesis by (auto simp: entries09_def list_all_iff)
  qed
  ultimately show ?thesis by (simp add: valid_entries_def)
qed

lemma full_valid_solved:
  assumes g9: "grid9 g" and full: "first_empty g (product_range 9) = Inr None"
    and ve: "valid_entries g"
  shows "solved_grid g"
proof -
  have cell: "g ! r ! c \<in> {1..9}" if "r < 9" "c < 9" for r c
  proof -
    from that g9 have "g ! r \<in> set g" "g ! r ! c \<in> set (g ! r)"
      by (simp_all add: grid9_iff)
    with ve have "0 \<le> g ! r ! c \<and> g ! r ! c \<le> 9"
      by (auto simp: valid_entries_def entries09_def list_all_iff)
    moreover from first_empty_None[OF full, of r c] that have "g ! r ! c \<noteq> 0" by simp
    ultimately show ?thesis by simp
  qed
  have "exactly_once (values_at g u)" if u: "u \<in> set units" for u
  proof -
    have sub: "set (values_at g u) \<subseteq> {1..9}"
      using unit_facts(3)[OF u] cell by (auto simp: values_at_def)
    then have "nonzero (values_at g u) = values_at g u"
      by (auto simp: nonzero_def filter_id_conv)
    with ve u have d: "distinct (values_at g u)"
      by (auto simp: valid_entries_def no_duplicate_digits_def list_all_iff)
    have len: "length (values_at g u) = 9" using unit_facts(1)[OF u] by simp
    from d len have "card (set (values_at g u)) = card {1..9::int}"
      by (simp add: distinct_card)
    with sub have "set (values_at g u) = {1..9}" by (intro card_subset_eq) auto
    with d show ?thesis by (simp add: exactly_once_iff[OF len])
  qed
  with g9 show ?thesis by (simp add: solved_grid_def list_all_iff)
qed

lemma set_iteration_order_finite: "finite s \<Longrightarrow> set (iteration_order pri g s) = s"
  by (simp add: iteration_order_def)

text \<open>
  The search from a consistent state, by induction on its recursion.
\<close>

lemma search_outcome:
  "consistent st \<Longrightarrow> outcome st (\<lambda>sol. True) (backtrack pri st)"
  "consistent st \<Longrightarrow> row < 9 \<Longrightarrow> col < 9 \<Longrightarrow> grid st ! row ! col = 0 \<Longrightarrow>
     b = box_of row col \<Longrightarrow>
     set cands \<subseteq> rows_possible st ! row \<inter> cols_possible st ! col \<inter> boxes_possible st ! b \<Longrightarrow>
     outcome st (\<lambda>sol. sol ! row ! col \<in> set cands) (try_candidates pri st row col b cands)"
proof (induction pri st and pri st row col b cands rule: search_induct)
  case (backtrack pri st)
  note c = backtrack.prems
  from c have g9: "grid9 (grid st)" by (simp add: consistent_def)
  from first_empty_grid9[OF g9] obtain found
    where found: "first_empty (grid st) (product_range 9) = Inr found" by blast
  show ?case
  proof (cases found)
    case None
    with found have "backtrack pri st = Inr (True, st)"
      by (simp add: backtrack.simps[of pri st])
    with c found None show ?thesis by (auto simp: outcome_def)
  next
    case (Some cell)
    obtain row col where cell: "cell = (row, col)" by (cases cell)
    note fe = found[unfolded Some cell]
    from first_empty_Some[OF fe] have rc: "row < 9" "col < 9"
      and zero: "grid st ! row ! col = 0" by simp_all
    let ?b = "row div 3 * 3 + col div 3"
    let ?C = "rows_possible st ! row \<inter> cols_possible st ! col \<inter> boxes_possible st ! ?b"
    have b: "?b = box_of row col" by (simp add: box_of_def)
    have lens: "row < length (rows_possible st)" "col < length (cols_possible st)"
      "?b < length (boxes_possible st)"
      using rc box_of_less[OF rc] consistent_lengths[OF c] by (simp_all add: b)
    have cand: "sol ! row ! col \<in> ?C" if "completes (grid st) sol" "solved_grid sol" for sol
      using completion_candidate(1)[OF c rc zero that] by (simp add: b)
    show ?thesis
    proof (cases "?C = {}")
      case True
      with fe lens have "backtrack pri st = Inr (False, st)"
        by (simp add: backtrack.simps[of pri st])
      with c cand True show ?thesis by (auto simp: outcome_def)
    next
      case False
      with fe lens have run: "backtrack pri st =
          try_candidates pri st row col ?b (iteration_order pri (grid st) ?C)"
        by (simp add: backtrack.simps[of pri st] Let_def)
      have fin: "finite ?C" using consistent_finite[OF c rc(1)] by (simp add: Int_assoc)
      have "outcome st (\<lambda>sol. sol ! row ! col \<in> set (iteration_order pri (grid st) ?C))
          (try_candidates pri st row col ?b (iteration_order pri (grid st) ?C))"
        using backtrack.IH[OF fe lens False c rc zero b]
        by (simp add: set_iteration_order_finite[OF fin])
      with cand show ?thesis
        unfolding run outcome_def set_iteration_order_finite[OF fin] by blast
    qed
  qed
next
  case (nil pri st row col b)
  then show ?case by (auto simp: outcome_def)
next
  case (cons pri st row col b num rest)
  note c = cons.prems(1) and rc = cons.prems(2,3) and zero = cons.prems(4)
    and b = cons.prems(5)
  from cons.prems(6) have num: "num \<in> rows_possible st ! row \<inter> cols_possible st ! col
        \<inter> boxes_possible st ! (box_of row col)"
    and rest: "set rest \<subseteq> rows_possible st ! row \<inter> cols_possible st ! col
        \<inter> boxes_possible st ! b"
    by (simp_all add: b)
  let ?g1 = "(grid st)[row := (grid st ! row)[col := num]]"
  from place_consistent[OF c rc zero num] obtain st1
    where g1: "set_cell (grid st) row col num = Inr ?g1"
      and st1: "place (st\<lparr>grid := ?g1\<rparr>) row col b num = Inr st1"
      and grid1: "grid st1 = ?g1" and c1: "consistent st1"
    by (auto simp: b)
  from cons.IH(1)[OF g1 st1 c1] obtain ok1 s1
    where run1: "backtrack pri st1 = Inr (ok1, s1)" and cs1: "consistent s1"
      and full1: "ok1 \<Longrightarrow> first_empty (grid s1) (product_range 9) = Inr None"
      and valid1: "valid_entries (grid st1) \<Longrightarrow> valid_entries (grid s1)"
      and none1: "\<not> ok1 \<Longrightarrow> \<forall>sol. completes (grid st1) sol \<and> solved_grid sol \<longrightarrow> False"
    by (auto simp: outcome_def)
  have v1: "valid_entries (grid st) \<Longrightarrow> valid_entries (grid st1)"
    using place_valid[OF c rc zero num] by (simp add: grid1)
  show ?case
  proof (cases ok1)
    case True
    with g1 st1 run1 have "try_candidates pri st row col b (num # rest) = Inr (True, s1)"
      by (simp add: try_candidates_Cons[OF zero] del: try_candidates.simps)
    with cs1 full1 valid1 v1 True show ?thesis by (auto simp: outcome_def)
  next
    case False
    with run1 restored(1) have run1': "backtrack pri st1 = Inr (False, st1)" by auto
    with g1 st1 have eq: "try_candidates pri st row col b (num # rest)
        = try_candidates pri st row col b rest"
      by (simp add: try_candidates_Cons[OF zero] del: try_candidates.simps)
    from cons.IH(2)[OF zero g1 st1 run1' c rc zero b rest]
    have o: "outcome st (\<lambda>sol. sol ! row ! col \<in> set rest)
        (try_candidates pri st row col b rest)" .
    have "\<not> (completes (grid st) sol \<and> solved_grid sol \<and> sol ! row ! col = num)" for sol
    proof
      assume a: "completes (grid st) sol \<and> solved_grid sol \<and> sol ! row ! col = num"
      with completion_candidate(2)[OF c rc zero, of sol] have "completes (grid st1) sol"
        by (simp add: grid1)
      with none1[OF False] a show False by blast
    qed
    with o show ?thesis unfolding eq outcome_def by auto
  qed
qed

lemma initial_consistent:
  assumes "grid9 g"
  shows "\<exists>rp cp bp. get_possible_numbers g = Inr (rp, cp, bp)
     \<and> consistent \<lparr>grid = g, rows_possible = rp, cols_possible = cp, boxes_possible = bp\<rparr>"
  using assms by (simp add: consistent_def get_possible_numbers_def grid9_subscriptable)

lemma solve_sudoku_outcome:
  assumes "grid9 g"
  shows "\<exists>ok s. solve_sudoku pri g = Inr (ok, grid s) \<and> consistent s
     \<and> (ok \<longrightarrow> first_empty (grid s) (product_range 9) = Inr None)
     \<and> (valid_entries g \<longrightarrow> valid_entries (grid s))
     \<and> (\<not> ok \<longrightarrow> (\<forall>sol. completes g sol \<longrightarrow> \<not> solved_grid sol))"
proof -
  from initial_consistent[OF assms] obtain rp cp bp
    where gp: "get_possible_numbers g = Inr (rp, cp, bp)"
      and c: "consistent \<lparr>grid = g, rows_possible = rp, cols_possible = cp, boxes_possible = bp\<rparr>"
    by blast
  from search_outcome(1)[OF c, of pri] obtain ok s
    where "backtrack pri \<lparr>grid = g, rows_possible = rp, cols_possible = cp, boxes_possible = bp\<rparr>
        = Inr (ok, s)" "consistent s"
      "ok \<longrightarrow> first_empty (grid s) (product_range 9) = Inr None"
      "valid_entries g \<longrightarrow> valid_entries (grid s)"
      "\<not> ok \<longrightarrow> (\<forall>sol. completes g sol \<longrightarrow> \<not> solved_grid sol)"
    by (auto simp: outcome_def)
  with gp show ?thesis by (auto simp: solve_sudoku_def)
qed

lemma solved_cell:
  assumes "solved_grid s" "r < 9" "c < 9"
  shows "s ! r ! c \<in> {1..9}"
proof -
  from cell_units[OF assms(2,3)] have u: "row_cells r \<in> set units" by simp
  have "s ! r ! c \<in> set (values_at s (row_cells r))"
    using assms(3) by (auto simp: values_at_def row_cells_def)
  with solved_unit(2)[OF assms(1) u] show ?thesis by simp
qed

lemma solve_sudoku_sound:
  assumes g9: "grid9 g" and e: "entries09 g" and v: "is_valid_initial_sudoku g = Inr True"
    and run: "solve_sudoku pri g = Inr (True, g')"
  shows "solved_grid g'" "completes g g'"
proof -
  from v is_valid_initial_sudoku_grid9[OF g9] have "no_duplicate_digits g" by simp
  with e have ve: "valid_entries g" by (simp add: valid_entries_def)
  from solve_sudoku_outcome[OF g9, of pri] run ve obtain s
    where s: "g' = grid s" "consistent s" "first_empty (grid s) (product_range 9) = Inr None"
      "valid_entries (grid s)"
    by auto
  from s(2) have g9': "grid9 g'" by (simp add: consistent_def s(1))
  from full_valid_solved[OF _ s(3,4)] g9' show sv: "solved_grid g'" by (simp add: s(1))
  from run obtain rp cp bp st
    where "backtrack pri \<lparr>grid = g, rows_possible = rp, cols_possible = cp, boxes_possible = bp\<rparr>
            = Inr (True, st)" and "g' = grid st"
    unfolding solve_sudoku_Inr by blast
  with frame(1) have k: "keeps g g'" by fastforce
  have "if g ! r ! c = 0 then 1 \<le> g' ! r ! c \<and> g' ! r ! c \<le> 9 else g' ! r ! c = g ! r ! c"
    if "r < 9" "c < 9" for r c
    using solved_cell[OF sv that] k by (auto simp: keeps_def)
  with g9' show "completes g g'" by (auto simp: completes_def list_all_iff)
qed

text \<open>
  Claim C1. For every 9 by 9 grid of integers between 0 and 9 that passes
  \<^verbatim>\<open>is_valid_initial_sudoku\<close>, and every order of iteration, \<^verbatim>\<open>solve_sudoku\<close> returns, and it
  returns \<^verbatim>\<open>True\<close> if and only if the grid has a completion in which every row, column and
  box contains each digit from 1 to 9 exactly once; so it returns \<^verbatim>\<open>False\<close> exactly when
  there is none.
\<close>

theorem solve_sudoku_decides:
  assumes "grid9 g" and "entries09 g" and "is_valid_initial_sudoku g = Inr True"
  shows "\<exists>ok g'. solve_sudoku pri g = Inr (ok, g')
     \<and> (ok \<longleftrightarrow> (\<exists>sol. completes g sol \<and> solved_grid sol))"
proof -
  from solve_sudoku_outcome[OF assms(1), of pri] obtain ok and s :: state
    where run: "solve_sudoku pri g = Inr (ok, grid s)"
      and none: "\<not> ok \<longrightarrow> (\<forall>sol. completes g sol \<longrightarrow> \<not> solved_grid sol)"
    by blast
  have "\<exists>sol. completes g sol \<and> solved_grid sol" if ok
    using solve_sudoku_sound[OF assms, of pri "grid s"] run that by auto
  with run none show ?thesis by auto
qed

theorem solve_sudoku_decides_witness:
  "solve_sudoku ascending example_nearly = Inr (True, example_solution)
   \<and> (\<exists>sol. completes example_nearly sol \<and> solved_grid sol)
   \<and> solve_sudoku ascending example_unsolvable = Inr (False, example_unsolvable)
   \<and> \<not> (\<exists>sol. completes example_unsolvable sol \<and> solved_grid sol)"
proof -
  have a: "grid9 example_nearly" "entries09 example_nearly"
    "is_valid_initial_sudoku example_nearly = Inr True"
    by code_simp+
  have b: "grid9 example_unsolvable" "entries09 example_unsolvable"
    "is_valid_initial_sudoku example_unsolvable = Inr True"
    by code_simp+
  from solve_sudoku_decides[OF a, of ascending] solve_sudoku_decides[OF b, of ascending]
  show ?thesis by (simp add: run_nearly run_unsolvable)
qed

text \<open>
  Claim C2. For every 9 by 9 grid of integers between 0 and 9 that passes
  \<^verbatim>\<open>is_valid_initial_sudoku\<close>, if \<^verbatim>\<open>solve_sudoku\<close> returns \<^verbatim>\<open>True\<close> then in the grid it
  leaves every row, every column and every box contains each digit from 1 to 9 exactly
  once, and no cell holds 0.
\<close>

theorem solve_sudoku_valid:
  assumes "grid9 g" and "entries09 g" and "is_valid_initial_sudoku g = Inr True"
    and "solve_sudoku pri g = Inr (True, g')"
  shows "solved_grid g' \<and> 0 \<notin> set (concat g')"
proof -
  note sv = solve_sudoku_sound(1)[OF assms]
  then have g9: "grid9 g'" by (simp add: solved_grid_def)
  have "v \<noteq> 0" if "row \<in> set g'" "v \<in> set row" for row v
  proof -
    from that(1) obtain r where r: "r < length g'" "row = g' ! r" by (auto simp: in_set_conv_nth)
    with g9 have r9: "r < 9" "length row = 9" by (simp_all add: grid9_iff)
    with that(2) obtain c where c: "c < 9" "v = row ! c" by (auto simp: in_set_conv_nth)
    from solved_cell[OF sv r9(1) c(1)] r c show ?thesis by auto
  qed
  with sv show ?thesis by auto
qed

theorem solve_sudoku_valid_witness:
  "solve_sudoku ascending example_nearly = Inr (True, example_solution)
   \<and> solved_grid example_solution \<and> 0 \<notin> set (concat example_solution)"
proof -
  have a: "grid9 example_nearly" "entries09 example_nearly"
    "is_valid_initial_sudoku example_nearly = Inr True"
    by code_simp+
  from solve_sudoku_valid[OF a run_nearly] run_nearly show ?thesis by simp
qed

section \<open>Throughout the search\<close>

lemma step_point_ok:
  assumes "step pri p q" "point_ok p"
  shows "point_ok q"
  using assms
proof (induction rule: step.induct)
  case (enter_loop st row col box_index candidates)
  from first_empty_Some[OF enter_loop(1)] have "row < 9" "col < 9" "grid st ! row ! col = 0"
    by simp_all
  with enter_loop set_iteration_order[of pri "grid st" candidates] show ?case
    by (simp add: box_of_def)
next
  case (recurse st row col num g1 box_index st1 rest)
  then have c: "consistent st" and rc: "row < 9" "col < 9" and zero: "grid st ! row ! col = 0"
    and b: "box_index = box_of row col"
    and num: "num \<in> rows_possible st ! row \<inter> cols_possible st ! col
        \<inter> boxes_possible st ! (box_of row col)"
    by auto
  from place_consistent[OF c rc zero num] recurse(1,2) show ?case
    by (auto simp: b)
next
  case (undo st row col num g1 box_index st1 st2 g3 st3 rest)
  from restored(1)[OF undo(3)] have st2: "st2 = st1" .
  from undo(6) have zero: "grid st ! row ! col = 0" by simp
  have "st3 = cleared st row col"
    using round_trip[OF undo(1,2) undo(4)[unfolded st2] undo(5)[unfolded st2]] .
  with cleared_zero[OF zero] have "st3 = st" by simp
  with undo(6) show ?case by auto
qed

lemma reachable_point_ok:
  assumes "(step pri)\<^sup>*\<^sup>* p q" "point_ok p"
  shows "point_ok q"
  using assms by (induction rule: rtranclp_induct) (auto intro: step_point_ok)

lemma point_ok_consistent: "point_ok p \<Longrightarrow> consistent (point_state p)"
  by (cases p) simp_all

lemma consistent_possibility:
  assumes c: "consistent st"
  shows "possibility_invariant st"
proof -
  let ?g = "grid st"
  from c have rows: "rows_possible st = map (\<lambda>r. {1..9} - digits_present ?g (row_cells r)) [0..<9]"
    and cols: "cols_possible st = map (\<lambda>c. {1..9} - digits_present ?g (col_cells c)) [0..<9]"
    and boxes: "boxes_possible st = map (\<lambda>b. {1..9} - digits_present ?g (box_cells b)) [0..<9]"
    by (simp_all add: consistent_iff)
  have sets: "rows_possible st ! r = {1..9} - digits_present ?g (row_cells r)"
    "cols_possible st ! c = {1..9} - digits_present ?g (col_cells c)"
    "boxes_possible st ! (box_of r c) = {1..9} - digits_present ?g (box_cells (box_of r c))"
    if "r < 9" "c < 9" for r c
    using that box_of_less[OF that] by (simp_all add: rows cols boxes del: upt_Suc)
  have present: "d \<in> digits_present ?g cells \<longleftrightarrow> d \<in> set (values_at ?g cells)"
    if "d \<noteq> 0" for d cells
    using that by (auto simp: digits_present_def nonzero_def)
  have filled: "?g ! r ! c \<in> digits_present ?g cells"
    if "?g ! r ! c \<noteq> 0" "(r, c) \<in> set cells" for r c cells
    using that by (auto simp: in_digits_present)
  show ?thesis
    unfolding possibility_invariant_def list_all_iff
  proof (intro ballI, clarify)
    fix r c assume "(r, c) \<in> set (product_range 9)"
    then have rc: "r < 9" "c < 9" by simp_all
    note cu = cell_units[OF rc]
    show "if ?g ! r ! c \<noteq> 0
        then ?g ! r ! c \<notin> rows_possible st ! r \<and> ?g ! r ! c \<notin> cols_possible st ! c
           \<and> ?g ! r ! c \<notin> boxes_possible st ! (box_of r c)
        else \<forall>d\<in>set [1..9].
           (d \<in> rows_possible st ! r \<and> d \<in> cols_possible st ! c
              \<and> d \<in> boxes_possible st ! (box_of r c))
           = (d \<notin> set (values_at ?g (row_cells r))
              \<and> d \<notin> set (values_at ?g (col_cells c))
              \<and> d \<notin> set (values_at ?g (box_cells (box_of r c))))"
    proof (cases "?g ! r ! c = 0")
      case True
      have "(d \<in> rows_possible st ! r \<and> d \<in> cols_possible st ! c
              \<and> d \<in> boxes_possible st ! (box_of r c))
           = (d \<notin> set (values_at ?g (row_cells r))
              \<and> d \<notin> set (values_at ?g (col_cells c))
              \<and> d \<notin> set (values_at ?g (box_cells (box_of r c))))" if "d \<in> set [1..9]" for d
      proof -
        from that have "d \<noteq> 0" "d \<in> {1..9}" by simp_all
        then show ?thesis by (simp add: sets[OF rc] present)
      qed
      with True show ?thesis by simp
    next
      case False
      from filled[OF False cu(4)] filled[OF False cu(5)] filled[OF False cu(6)] False
      show ?thesis by (simp add: sets[OF rc])
    qed
  qed
qed

text \<open>
  Claim C5. Start the search on a 9 by 9 grid with the sets of \<^verbatim>\<open>get_possible_numbers\<close>.
  At every point it reaches, so after every Place and after every Unplace, the
  possibility state satisfies the invariant: the value of a filled cell is absent from
  the sets of its row, column and box, and for an empty cell a digit is in all three sets
  if and only if it occurs in none of the row, the column and the box.
\<close>

theorem possibility_invariant_throughout:
  assumes "grid9 g" and "get_possible_numbers g = Inr (rp, cp, bp)"
    and "(step pri)\<^sup>*\<^sup>*
          (AtCall \<lparr>grid = g, rows_possible = rp, cols_possible = cp, boxes_possible = bp\<rparr>) p"
  shows "possibility_invariant (point_state p)"
proof -
  from assms(1,2)
  have "point_ok (AtCall \<lparr>grid = g, rows_possible = rp, cols_possible = cp, boxes_possible = bp\<rparr>)"
    by (simp add: consistent_def)
  from reachable_point_ok[OF assms(3) this] show ?thesis
    by (intro consistent_possibility point_ok_consistent)
qed

lemma sum_list_bound: "(\<And>x. x \<in> set xs \<Longrightarrow> f x \<le> (k::nat)) \<Longrightarrow> sum_list (map f xs) \<le> length xs * k"
  by (induction xs) (auto simp: add_mono)

lemma zero_count_grid9:
  assumes "grid9 g"
  shows "zero_count g \<le> 81"
proof -
  have "count_list row 0 \<le> 9" if "row \<in> set g" for row
    using that assms count_le_length[of row 0] by (auto simp: grid9_def list_all_iff)
  from sum_list_bound[of g "\<lambda>row. count_list row 0" 9, OF this] assms
  show ?thesis by (simp add: zero_count_def grid9_def)
qed

lemma update_zero_id: "g ! row ! col = 0 \<Longrightarrow> g[row := (g ! row)[col := (0::int)]] = g"
proof -
  assume "g ! row ! col = 0"
  then have "(g ! row)[col := 0] = g ! row"
    using list_update_id[of "g ! row" col] by simp
  then show ?thesis by simp
qed

lemma step_zero_count:
  assumes "step pri p q" "point_ok p"
  shows "zero_count (grid (point_state q)) \<le> zero_count (grid (point_state p))
     \<and> (\<forall>st1. q = AtCall st1 \<longrightarrow> zero_count (grid st1) < zero_count (grid (point_state p)))"
  using assms
proof (induction rule: step.induct)
  case (enter_loop st row col box_index candidates)
  show ?case by simp
next
  case (recurse st row col num g1 box_index st1 rest)
  from recurse(3) have c: "consistent st" and rc: "row < 9" "col < 9"
    and zero: "grid st ! row ! col = 0"
    and num: "num \<in> rows_possible st ! row" by auto
  from c rc num have "num \<in> {1..9}" by (auto simp: consistent_iff simp del: upt_Suc)
  then have nz: "num \<noteq> 0" by simp
  from recurse(1) have rng: "row < length (grid st)" "col < length (grid st ! row)"
    and g1: "g1 = (grid st)[row := (grid st ! row)[col := num]]"
    by (simp_all add: set_cell_Inr)
  from zero_count_update[OF rng, of num] nz place_grid[OF recurse(2)]
  have "zero_count (grid st1) < zero_count (grid st)"
    by (simp add: g1 update_zero_id[OF zero])
  then show ?case by simp
next
  case (undo st row col num g1 box_index st1 st2 g3 st3 rest)
  from restored(1)[OF undo(3)] have st2: "st2 = st1" .
  from undo(6) have zero: "grid st ! row ! col = 0" by simp
  have "st3 = cleared st row col"
    using round_trip[OF undo(1,2) undo(4)[unfolded st2] undo(5)[unfolded st2]] .
  with cleared_zero[OF zero] show ?case by simp
qed

lemma reachable_zero_count:
  assumes "(step pri)\<^sup>*\<^sup>* p q" "point_ok p"
  shows "zero_count (grid (point_state q)) \<le> zero_count (grid (point_state p))"
  using assms
proof (induction rule: rtranclp_induct)
  case base
  show ?case by simp
next
  case (step q r)
  from step_zero_count[OF step(2) reachable_point_ok[OF step(1) step(4)]] step(3)[OF step(4)]
  show ?case by simp
qed

text \<open>
  Claim C6. On every 9 by 9 grid \<^verbatim>\<open>solve_sudoku\<close> terminates: the function of the model is
  total by its termination proof, and it returns a truth value and a grid, not an
  exception. A 9 by 9 grid has at most 81 empty cells; no point of the search has more
  empty cells than the grid it started from; and every recursive call of \<^verbatim>\<open>backtrack\<close>
  is made on a grid with fewer empty cells than the grid at the head of the loop that
  makes it. The values need not lie between 0 and 9 for this to hold.
\<close>

theorem search_terminates:
  assumes "grid9 g"
  shows "(\<exists>ok g'. solve_sudoku pri g = Inr (ok, g'))
     \<and> zero_count g \<le> 81
     \<and> (\<forall>rp cp bp p st1.
          get_possible_numbers g = Inr (rp, cp, bp) \<longrightarrow>
          (step pri)\<^sup>*\<^sup>*
            (AtCall \<lparr>grid = g, rows_possible = rp, cols_possible = cp, boxes_possible = bp\<rparr>) p \<longrightarrow>
          step pri p (AtCall st1) \<longrightarrow>
          zero_count (grid st1) < zero_count (grid (point_state p))
          \<and> zero_count (grid (point_state p)) \<le> zero_count g)"
proof (intro conjI allI impI)
  from solve_sudoku_outcome[OF assms, of pri]
  show "\<exists>ok g'. solve_sudoku pri g = Inr (ok, g')" by blast
next
  show "zero_count g \<le> 81" using assms by (rule zero_count_grid9)
next
  fix rp cp bp p st1
  assume gp: "get_possible_numbers g = Inr (rp, cp, bp)"
    and reach: "(step pri)\<^sup>*\<^sup>*
      (AtCall \<lparr>grid = g, rows_possible = rp, cols_possible = cp, boxes_possible = bp\<rparr>) p"
    and call: "step pri p (AtCall st1)"
  from assms gp
  have ok: "point_ok (AtCall \<lparr>grid = g, rows_possible = rp, cols_possible = cp, boxes_possible = bp\<rparr>)"
    by (simp add: consistent_def)
  from step_zero_count[OF call reachable_point_ok[OF reach ok]]
  show "zero_count (grid st1) < zero_count (grid (point_state p))" by simp
  from reachable_zero_count[OF reach ok]
  show "zero_count (grid (point_state p)) \<le> zero_count g" by simp
qed

lemma example_steps:
  "\<exists>rp cp bp st1.
     get_possible_numbers example_nearly = Inr (rp, cp, bp)
     \<and> step ascending
         (AtCall \<lparr>grid = example_nearly, rows_possible = rp, cols_possible = cp,
                   boxes_possible = bp\<rparr>)
         (InLoop \<lparr>grid = example_nearly, rows_possible = rp, cols_possible = cp,
                   boxes_possible = bp\<rparr> 0 2 0 [2, 4])
     \<and> step ascending
         (InLoop \<lparr>grid = example_nearly, rows_possible = rp, cols_possible = cp,
                   boxes_possible = bp\<rparr> 0 2 0 [2, 4])
         (AtCall st1)
     \<and> grid st1 = example_nearly[0 := (example_nearly ! 0)[2 := 2]]"
proof -
  have g9: "grid9 example_nearly" by code_simp
  from initial_consistent[OF g9] obtain rp cp bp
    where gp: "get_possible_numbers example_nearly = Inr (rp, cp, bp)"
      and c: "consistent \<lparr>grid = example_nearly, rows_possible = rp, cols_possible = cp,
                          boxes_possible = bp\<rparr>"
    by blast
  let ?st = "\<lparr>grid = example_nearly, rows_possible = rp, cols_possible = cp,
               boxes_possible = bp\<rparr>"
  have box: "box_of 0 2 = 0" by (simp add: box_of_def)
  from consistent_nth[OF c, of 0 2]
  have sets: "rp ! 0 = {1..9} - digits_present example_nearly (row_cells 0)"
    "cp ! 2 = {1..9} - digits_present example_nearly (col_cells 2)"
    "bp ! 0 = {1..9} - digits_present example_nearly (box_cells 0)"
    by (simp_all add: box)
  from consistent_lengths[OF c] have lens: "0 < length rp" "2 < length cp" "0 < length bp"
    by simp_all
  have fe: "first_empty (grid ?st) (product_range 9) = Inr (Some (0, 2))"
    by simp code_simp
  have order: "iteration_order ascending example_nearly
      (({1..9} - digits_present example_nearly (row_cells 0))
       \<inter> ({1..9} - digits_present example_nearly (col_cells 2))
       \<inter> ({1..9} - digits_present example_nearly (box_cells 0))) = [2, 4]"
    by code_simp
  then have ne: "rp ! 0 \<inter> cp ! 2 \<inter> bp ! 0 \<noteq> {}"
    unfolding sets by (auto simp: iteration_order_def)
  have s1: "step ascending (AtCall ?st) (InLoop ?st 0 2 0 [2, 4])"
    using step.enter_loop[of ?st 0 2 0 "rp ! 0 \<inter> cp ! 2 \<inter> bp ! 0" ascending, OF fe] lens ne
    by (simp add: sets order)
  from c have "point_ok (AtCall ?st)" by simp
  from step_point_ok[OF s1 this]
  have num: "2 \<in> rows_possible ?st ! 0 \<inter> cols_possible ?st ! 2
      \<inter> boxes_possible ?st ! (box_of 0 2)"
    and zero: "grid ?st ! 0 ! 2 = 0"
    by auto
  from place_consistent[OF c _ _ zero num] obtain st1
    where "set_cell (grid ?st) 0 2 2 = Inr ((grid ?st)[0 := (grid ?st ! 0)[2 := 2]])"
      and "place (?st\<lparr>grid := (grid ?st)[0 := (grid ?st ! 0)[2 := 2]]\<rparr>) 0 2 (box_of 0 2) 2
             = Inr st1"
      and g1: "grid st1 = (grid ?st)[0 := (grid ?st ! 0)[2 := 2]]"
    by auto
  then have s2: "step ascending (InLoop ?st 0 2 0 (2 # [4])) (AtCall st1)"
    by (intro step.recurse) (simp_all add: box_of_def)
  from gp s1 s2 g1 show ?thesis by auto
qed

theorem possibility_invariant_throughout_witness:
  "\<exists>rp cp bp st1.
     get_possible_numbers example_nearly = Inr (rp, cp, bp)
     \<and> (step ascending)\<^sup>*\<^sup>*
         (AtCall \<lparr>grid = example_nearly, rows_possible = rp, cols_possible = cp,
                   boxes_possible = bp\<rparr>)
         (AtCall st1)
     \<and> grid st1 ! 0 ! 2 = 2
     \<and> possibility_invariant st1"
proof -
  have g9: "grid9 example_nearly" by code_simp
  from example_steps obtain rp cp bp st1
    where gp: "get_possible_numbers example_nearly = Inr (rp, cp, bp)"
      and s1: "step ascending
         (AtCall \<lparr>grid = example_nearly, rows_possible = rp, cols_possible = cp,
                   boxes_possible = bp\<rparr>)
         (InLoop \<lparr>grid = example_nearly, rows_possible = rp, cols_possible = cp,
                   boxes_possible = bp\<rparr> 0 2 0 [2, 4])"
      and s2: "step ascending
         (InLoop \<lparr>grid = example_nearly, rows_possible = rp, cols_possible = cp,
                   boxes_possible = bp\<rparr> 0 2 0 [2, 4])
         (AtCall st1)"
      and g1: "grid st1 = example_nearly[0 := (example_nearly ! 0)[2 := 2]]"
    by blast
  from s1 s2 have reach: "(step ascending)\<^sup>*\<^sup>*
         (AtCall \<lparr>grid = example_nearly, rows_possible = rp, cols_possible = cp,
                   boxes_possible = bp\<rparr>)
         (AtCall st1)"
    by simp
  have "grid st1 ! 0 ! 2 = 2" unfolding g1 by code_simp
  with possibility_invariant_throughout[OF g9 gp reach] gp reach show ?thesis
    by auto
qed

theorem search_terminates_witness:
  "solve_sudoku ascending example_nearly = Inr (True, example_solution)
   \<and> zero_count example_nearly = 3
   \<and> (\<exists>rp cp bp p st1.
        get_possible_numbers example_nearly = Inr (rp, cp, bp)
        \<and> (step ascending)\<^sup>*\<^sup>*
            (AtCall \<lparr>grid = example_nearly, rows_possible = rp, cols_possible = cp,
                      boxes_possible = bp\<rparr>) p
        \<and> step ascending p (AtCall st1)
        \<and> zero_count (grid st1) < zero_count (grid (point_state p)))"
proof -
  have g9: "grid9 example_nearly" by code_simp
  have z: "zero_count example_nearly = 3" by code_simp
  from example_steps obtain rp cp bp st1
    where gp: "get_possible_numbers example_nearly = Inr (rp, cp, bp)"
      and s1: "step ascending
         (AtCall \<lparr>grid = example_nearly, rows_possible = rp, cols_possible = cp,
                   boxes_possible = bp\<rparr>)
         (InLoop \<lparr>grid = example_nearly, rows_possible = rp, cols_possible = cp,
                   boxes_possible = bp\<rparr> 0 2 0 [2, 4])"
      and s2: "step ascending
         (InLoop \<lparr>grid = example_nearly, rows_possible = rp, cols_possible = cp,
                   boxes_possible = bp\<rparr> 0 2 0 [2, 4])
         (AtCall st1)"
    by blast
  from s1 have reach: "(step ascending)\<^sup>*\<^sup>*
         (AtCall \<lparr>grid = example_nearly, rows_possible = rp, cols_possible = cp,
                   boxes_possible = bp\<rparr>)
         (InLoop \<lparr>grid = example_nearly, rows_possible = rp, cols_possible = cp,
                   boxes_possible = bp\<rparr> 0 2 0 [2, 4])"
    by simp
  from search_terminates[OF g9, of ascending] gp reach s2
  have "zero_count (grid st1) < zero_count (grid (point_state
      (InLoop \<lparr>grid = example_nearly, rows_possible = rp, cols_possible = cp,
                   boxes_possible = bp\<rparr> 0 2 0 [2, 4])))"
    by blast
  with gp reach s2 z run_nearly show ?thesis by blast
qed

end
